theory Spec2Isabelle
  imports Main "HOL-Library.List_Lexorder"
begin

section \<open>Constants of the tree (index.js, lines 8-10)\<close>

definition T :: nat where
  "T = 5"

definition MIN_KEYS :: nat where
  "MIN_KEYS = T - 1"

definition MAX_CHILDREN :: nat where
  "MAX_CHILDREN = MIN_KEYS * 2 + 1"

section \<open>Keys, child references and tree nodes\<close>

text \<open>
  \<^verbatim>\<open>class Key { seq, value }\<close>, \<^verbatim>\<open>class Child { seq, offset, value }\<close> and
  \<^verbatim>\<open>class TreeNode { block, keys, children, changed }\<close>.
  A \<open>value\<close> of \<open>None\<close> is the source's \<^verbatim>\<open>null\<close>: the key bytes or the child node have
  not been read from the log yet. The \<open>block\<close> of a node is kept as the sequence number
  of its block entry (\<^verbatim>\<open>null\<close> for a node created in memory).
  Key bytes are values of the type \<open>'k\<close>.
\<close>

datatype 'k key = Key (kseq: nat) (kvalue: "'k option")

datatype 'k child = Child (cseq: nat) (coffset: nat) (cvalue: "'k node option")
  and 'k node = TreeNode (block: "nat option") (keys: "'k key list")
      (children: "'k child list") (changed: bool)

text \<open>
  What the source does where the model stops: a \<^verbatim>\<open>TypeError\<close> on reading a property of
  \<^verbatim>\<open>undefined\<close>, the \<^verbatim>\<open>Error('Bad parent')\<close> of \<open>siblings\<close>, a read that has to
  fetch a key or a child from a block, or a block that the log does not hold (the model
  returns which block is wanted), a block that its decoder refuses, and \<open>Unmodelled\<close>
  where the source goes on with a value that has no counterpart here (the
  \<^verbatim>\<open>undefined\<close> that \<^verbatim>\<open>pop()\<close> returns on an empty array, a comparison with the
  \<^verbatim>\<open>null\<close> bytes of a key).
\<close>

datatype error = TypeError | BadParent | NeedsBlock nat | Undecodable | Unmodelled

text \<open>
  \<^verbatim>\<open>cmp(a, b)\<close> is \<^verbatim>\<open>a < b ? -1 : b < a ? 1 : 0\<close>, and the keys it gets are Buffers. The
  relational operator of the language turns each operand that is an object into a
  primitive, which for a Buffer is the result of \<^verbatim>\<open>toString()\<close>, and compares the two
  strings code unit by code unit. So \<^verbatim>\<open>cmp\<close> compares the string conversions of the keys:
  two keys with the same conversion compare equal whatever their bytes are. The
  conversion is the parameter \<open>str\<close>, into a linear order \<open>'s\<close>.
\<close>

definition cmp :: "('k \<Rightarrow> 's::linorder) \<Rightarrow> 'k \<Rightarrow> 'k \<Rightarrow> int" where
  "cmp str a b = (if str a < str b then - 1 else if str b < str a then 1 else 0)"




definition create :: "nat option \<Rightarrow> 'k node" where
  "create blk = TreeNode blk [] [] True"

text \<open>
  \<^verbatim>\<open>getKey(index)\<close>: the cached bytes when there are some; otherwise they come from a block
  (the node's own or one fetched from the log).
\<close>

definition getKey :: "'k node \<Rightarrow> nat \<Rightarrow> error + 'k" where
  "getKey node index =
     (if index < length (keys node) then
        (case kvalue (keys node ! index) of
           Some v \<Rightarrow> Inr v
         | None \<Rightarrow> Inl (NeedsBlock (kseq (keys node ! index))))
      else Inl TypeError)"

text \<open>\<^verbatim>\<open>getChildNode(index)\<close>: the cached node, or a fetch.\<close>

definition getChildNode :: "'k node \<Rightarrow> nat \<Rightarrow> error + 'k node" where
  "getChildNode node index =
     (if index < length (children node) then
        (case cvalue (children node ! index) of
           Some n \<Rightarrow> Inr n
         | None \<Rightarrow> Inl (NeedsBlock (cseq (children node ! index))))
      else Inl TypeError)"

definition setKey :: "'k node \<Rightarrow> nat \<Rightarrow> 'k key \<Rightarrow> 'k node" where
  "setKey node index key =
     TreeNode (block node) ((keys node)[index := key]) (children node) True"

subsection \<open>The binary search shared by insertKey, get, put and del\<close>

text \<open>
  The loop \<^verbatim>\<open>while (s < e) { mid = (s + e) >> 1; c = cmp(key, getKey(mid)); ... }\<close>
  appears four times in the source with the same body. \<open>Found mid\<close> is the exit at
  \<^verbatim>\<open>c === 0\<close>; \<open>Missed i\<close> is the normal exit, with \<^verbatim>\<open>i = c < 0 ? e : s\<close>
  (\<open>c\<close> is \<^verbatim>\<open>undefined\<close> when the loop body never ran, and \<^verbatim>\<open>undefined < 0\<close> is false).
  \<^verbatim>\<open>(s + e) >> 1\<close> is the integer half for array lengths below \<open>2^31\<close>.
\<close>

datatype outcome = Found nat | Missed nat

function bsearch :: "('k \<Rightarrow> 's::linorder) \<Rightarrow> 'k \<Rightarrow> 'k node \<Rightarrow> nat \<Rightarrow> nat \<Rightarrow> int option \<Rightarrow>
    error + outcome" where
  "bsearch str key node s e c =
     (if s < e then
        (let mid = (s + e) div 2 in
         case getKey node mid of
           Inl err \<Rightarrow> Inl err
         | Inr k \<Rightarrow>
             (let c' = cmp str key k in
              if c' = 0 then Inr (Found mid)
              else if c' < 0 then bsearch str key node s mid (Some c')
              else bsearch str key node (mid + 1) e (Some c')))
      else Inr (Missed (case c of Some c' \<Rightarrow> if c' < 0 then e else s | None \<Rightarrow> s)))"
  by pat_completeness auto
termination
  by (relation "measure (\<lambda>(str, key, node, s, e, c). e - s)") auto

declare bsearch.simps [simp del]

definition search :: "('k \<Rightarrow> 's::linorder) \<Rightarrow> 'k \<Rightarrow> 'k node \<Rightarrow> error + outcome" where
  "search str key node = bsearch str key node 0 (length (keys node)) None"

subsection \<open>insertKey\<close>

text \<open>
  \<^verbatim>\<open>insertKey(key, child)\<close> returns the node as it is afterwards and the boolean result.
  \<^verbatim>\<open>splice(i, 0, x)\<close> inserts before position \<open>i\<close> and appends when \<open>i\<close> is past the end.
\<close>

definition splice_in :: "nat \<Rightarrow> 'a \<Rightarrow> 'a list \<Rightarrow> 'a list" where
  "splice_in i x xs = take i xs @ x # drop i xs"

definition insertKey :: "('k \<Rightarrow> 's::linorder) \<Rightarrow> 'k node \<Rightarrow> 'k key \<Rightarrow> 'k node option \<Rightarrow>
    error + (bool \<times> 'k node)" where
  "insertKey str node key child =
     (case kvalue key of
        None \<Rightarrow> Inl Unmodelled
      | Some kv \<Rightarrow>
     (case search str kv node of
        Inl err \<Rightarrow> Inl err
      | Inr (Found mid) \<Rightarrow> Inr (True, setKey node mid key)
      | Inr (Missed i) \<Rightarrow>
          (let ks = splice_in i key (keys node);
               cs = (case child of
                       None \<Rightarrow> children node
                     | Some n \<Rightarrow> splice_in (i + 1) (Child 0 0 (Some n)) (children node))
           in Inr (length ks < MAX_CHILDREN, TreeNode (block node) ks cs True))))"

subsection \<open>split\<close>

text \<open>
  The loop \<^verbatim>\<open>while (dst.length < n) dst.push(src.pop())\<close> of \<open>split\<close>, used for the keys
  and for the children.
\<close>

function popInto :: "nat \<Rightarrow> 'a list \<Rightarrow> 'a list \<Rightarrow> error + ('a list \<times> 'a list)" where
  "popInto n src dst =
     (if length dst < n then
        (if src = [] then Inl Unmodelled
         else popInto n (butlast src) (dst @ [last src]))
      else Inr (src, dst))"
  by pat_completeness auto
termination
  by (relation "measure (\<lambda>(n, src, dst). n - length dst)") auto

declare popInto.simps [simp del]

text \<open>
  \<^verbatim>\<open>split()\<close> returns \<^verbatim>\<open>{ left: this, median, right }\<close>, here the triple
  \<open>(left, median, right)\<close>. \<^verbatim>\<open>getKey(this.keys.length - 1)\<close> reads index \<open>-1\<close> of an
  empty array when no key is left, which is a \<^verbatim>\<open>TypeError\<close>.
\<close>

definition split :: "'k node \<Rightarrow> error + ('k node \<times> 'k key \<times> 'k node)" where
  "split node =
     (let len = length (keys node) div 2 in
      case popInto len (keys node) [] of
        Inl err \<Rightarrow> Inl err
      | Inr (ks, rks) \<Rightarrow>
          if ks = [] then Inl TypeError
          else
            (case getKey (TreeNode (block node) ks (children node) (changed node)) (length ks - 1) of
               Inl err \<Rightarrow> Inl err
             | Inr _ \<Rightarrow>
                 (case (if children node \<noteq> [] then popInto (len + 1) (children node) []
                        else Inr (children node, [])) of
                    Inl err \<Rightarrow> Inl err
                  | Inr (cs, rcs) \<Rightarrow>
                      Inr (TreeNode (block node) (butlast ks) cs True,
                           last ks,
                           TreeNode (block node) (rev rks) (rev rcs) True))))"


subsection \<open>removeKey and merge\<close>

text \<open>
  \<^verbatim>\<open>removeKey(index)\<close>: \<^verbatim>\<open>splice(index, 1)\<close> on the keys, and on a node with children the
  child at \<open>index + 1\<close> is marked freed and removed; the write \<^verbatim>\<open>children[index + 1].seq = 0\<close>
  is a \<^verbatim>\<open>TypeError\<close> when there is no such child.
\<close>

definition removeKey :: "'k node \<Rightarrow> nat \<Rightarrow> error + 'k node" where
  "removeKey node index =
     (let ks = take index (keys node) @ drop (index + 1) (keys node) in
      if children node \<noteq> [] then
        (if index + 1 < length (children node) then
           Inr (TreeNode (block node) ks
                  (take (index + 1) (children node) @ drop (index + 2) (children node)) True)
         else Inl TypeError)
      else Inr (TreeNode (block node) ks (children node) True))"

definition merge :: "'k node \<Rightarrow> 'k node \<Rightarrow> 'k key \<Rightarrow> 'k node" where
  "merge this node median =
     TreeNode (block this) (keys this @ median # keys node)
       (children this @ children node) True"

subsection \<open>The stack of a descent\<close>

text \<open>
  \<open>put\<close> and \<open>del\<close> keep the nodes of the path from the root in an array \<open>stack\<close> and
  write to them through it. A pushed node is a frame here: the node as it was when
  the descent left it, and the index of the child the descent went into. The source's
  nodes are shared objects, so a write to a node below is seen from its parent;
  \<open>plug\<close> makes that explicit when a frame is popped, and \<open>zipUp\<close> is the source's
  \<^verbatim>\<open>root\<close> (\<^verbatim>\<open>stack[0]\<close>) with every write below it in place.
  The head of the list is the top of the stack.
\<close>

type_synonym 'k frame = "'k node \<times> nat"

definition setValue :: "'k child \<Rightarrow> 'k node \<Rightarrow> 'k child" where
  "setValue c n = Child (cseq c) (coffset c) (Some n)"

definition plug :: "'k node \<Rightarrow> nat \<Rightarrow> 'k node \<Rightarrow> 'k node" where
  "plug parent i n =
     TreeNode (block parent) (keys parent)
       ((children parent)[i := setValue (children parent ! i) n]) (changed parent)"

fun zipUp :: "'k node \<Rightarrow> 'k frame list \<Rightarrow> 'k node" where
  "zipUp n [] = n"
| "zipUp n ((parent, i) # stack) = zipUp (plug parent i n) stack"

definition markChanged :: "'k node \<Rightarrow> 'k node" where
  "markChanged n = TreeNode (block n) (keys n) (children n) True"

subsection \<open>siblings\<close>

text \<open>
  \<^verbatim>\<open>node.siblings(parent)\<close> looks for the position \<open>i\<close> of the node among the children of
  its parent by object identity; the frame has that position. A position that is not
  one of the parent's is the source's \<^verbatim>\<open>Error('Bad parent')\<close>.
  The result is \<^verbatim>\<open>{ left, index, right }\<close>.
\<close>

definition siblings :: "'k node \<Rightarrow> nat \<Rightarrow> error + ('k node option \<times> nat \<times> 'k node option)" where
  "siblings parent i =
     (if i < length (children parent) then
        (case (if i \<noteq> 0 then map_sum id Some (getChildNode parent (i - 1)) else Inr None) of
           Inl err \<Rightarrow> Inl err
         | Inr left \<Rightarrow>
             (case (if i < length (children parent) - 1
                    then map_sum id Some (getChildNode parent (i + 1)) else Inr None) of
                Inl err \<Rightarrow> Inl err
              | Inr right \<Rightarrow> Inr (left, i, right)))
      else Inl BadParent)"

subsection \<open>leafSize and setKeyToNearestLeaf\<close>

lemma getChildNode_size:
  "getChildNode node i = Inr n \<Longrightarrow> size n < size node"
proof -
  assume a: "getChildNode node i = Inr n"
  then have i: "i < length (children node)" and v: "cvalue (children node ! i) = Some n"
    by (auto simp: getChildNode_def split: if_splits option.splits)
  have "children node ! i \<in> set (children node)"
    using i by simp
  then have "size (children node ! i) \<le> size_list size (children node)"
    by (rule size_list_estimation') simp
  moreover have "size n < size (children node ! i)"
    using v by (cases "children node ! i") auto
  moreover have "size_list size (children node) < size node"
    by (cases node) auto
  ultimately show ?thesis by simp
qed

function leafSize :: "'k node \<Rightarrow> bool \<Rightarrow> error + nat" where
  "leafSize node goLeft =
     (if children node \<noteq> [] then
        (case getChildNode node (if goLeft then 0 else length (children node) - 1) of
           Inl err \<Rightarrow> Inl err
         | Inr n \<Rightarrow> leafSize n goLeft)
      else Inr (length (keys node)))"
  by pat_completeness auto
termination
  by (relation "measure (\<lambda>(node, goLeft). size node)") (auto dest: getChildNode_size)

declare leafSize.simps [simp del]

text \<open>
  The two loops \<^verbatim>\<open>while (right.children.length) stack.push(right = right.children[0].value)\<close>
  and its mirror image. They read \<^verbatim>\<open>value\<close> directly: a child that is not loaded is
  \<^verbatim>\<open>null\<close>, and the next test of its \<^verbatim>\<open>children\<close> is a \<^verbatim>\<open>TypeError\<close>.
\<close>

definition childValue :: "'k node \<Rightarrow> nat \<Rightarrow> error + 'k node" where
  "childValue node i =
     (if i < length (children node) then
        (case cvalue (children node ! i) of Some n \<Rightarrow> Inr n | None \<Rightarrow> Inl TypeError)
      else Inl TypeError)"

lemma childValue_size:
  "childValue node i = Inr n \<Longrightarrow> size n < size node"
proof -
  assume a: "childValue node i = Inr n"
  then have "getChildNode node i = Inr n"
    by (auto simp: childValue_def getChildNode_def split: if_splits option.splits)
  then show ?thesis by (rule getChildNode_size)
qed

function pushPath :: "bool \<Rightarrow> 'k node \<Rightarrow> 'k frame list \<Rightarrow> error + ('k node \<times> 'k frame list)" where
  "pushPath goLeft node stack =
     (if children node \<noteq> [] then
        (let i = (if goLeft then 0 else length (children node) - 1) in
         case childValue node i of
           Inl err \<Rightarrow> Inl err
         | Inr n \<Rightarrow> pushPath goLeft n ((node, i) # stack))
      else Inr (node, stack))"
  by pat_completeness auto
termination
  by (relation "measure (\<lambda>(goLeft, node, stack). size node)") (auto dest: childValue_size)

declare pushPath.simps [simp del]

text \<open>
  \<^verbatim>\<open>setKeyToNearestLeaf(node, index, stack)\<close>. The result is the leaf the key was taken
  from, already without that key, and the stack with \<open>node\<close> (its key replaced) and the
  path to the leaf pushed; the leaf itself is the top of the source's stack.
  \<^verbatim>\<open>shift()\<close> and \<^verbatim>\<open>pop()\<close> on a leaf without keys return \<^verbatim>\<open>undefined\<close>, which the source
  stores as the key.
\<close>

definition setKeyToNearestLeaf ::
    "'k node \<Rightarrow> nat \<Rightarrow> 'k frame list \<Rightarrow> error + ('k node \<times> 'k frame list)" where
  "setKeyToNearestLeaf node index stack =
     (case getChildNode node index of Inl err \<Rightarrow> Inl err | Inr left \<Rightarrow>
     (case getChildNode node (index + 1) of Inl err \<Rightarrow> Inl err | Inr right \<Rightarrow>
     (case leafSize left False of Inl err \<Rightarrow> Inl err | Inr ls \<Rightarrow>
     (case leafSize right True of Inl err \<Rightarrow> Inl err | Inr rs \<Rightarrow>
      if ls < rs then
        (case pushPath True right [] of Inl err \<Rightarrow> Inl err | Inr (leaf, path) \<Rightarrow>
         if keys leaf = [] \<or> \<not> index < length (keys node) then Inl Unmodelled
         else
           Inr (TreeNode (block leaf) (tl (keys leaf)) (children leaf) (changed leaf),
                path @ (TreeNode (block node) ((keys node)[index := hd (keys leaf)])
                          (children node) (changed node), index + 1) # stack))
      else
        (case pushPath False left [] of Inl err \<Rightarrow> Inl err | Inr (leaf, path) \<Rightarrow>
         if keys leaf = [] \<or> \<not> index < length (keys node) then Inl Unmodelled
         else
           Inr (TreeNode (block leaf) (butlast (keys leaf)) (children leaf) (changed leaf),
                path @ (TreeNode (block node) ((keys node)[index := last (keys leaf)])
                          (children node) (changed node), index) # stack))))))"


subsection \<open>rebalance\<close>

text \<open>
  The three blocks of the loop body of \<^verbatim>\<open>rebalance\<close>, each giving the parent as it is
  afterwards: borrowing from the left sibling, borrowing from the right sibling, and
  the merge with \<^verbatim>\<open>left.merge(right, parent.keys[index])\<close> before
  \<^verbatim>\<open>parent.removeKey(index)\<close>. \<open>parent\<close> has the node at \<open>index\<close>.
\<close>

definition borrowLeft :: "'k node \<Rightarrow> nat \<Rightarrow> 'k node \<Rightarrow> 'k node \<Rightarrow> 'k node" where
  "borrowLeft parent index node left =
     (let left' = TreeNode (block left) (butlast (keys left))
                    (if children left \<noteq> [] then butlast (children left) else children left) True;
          node' = TreeNode (block node) (keys parent ! (index - 1) # keys node)
                    (if children left \<noteq> [] then last (children left) # children node
                     else children node) (changed node)
      in TreeNode (block parent) ((keys parent)[index - 1 := last (keys left)])
           ((children parent)[index - 1 := setValue (children parent ! (index - 1)) left',
                              index := setValue (children parent ! index) node'])
           (changed parent))"

definition borrowRight :: "'k node \<Rightarrow> nat \<Rightarrow> 'k node \<Rightarrow> 'k node \<Rightarrow> 'k node" where
  "borrowRight parent index node right =
     (let right' = TreeNode (block right) (tl (keys right))
                     (if children right \<noteq> [] then tl (children right) else children right) True;
          node' = TreeNode (block node) (keys node @ [keys parent ! index])
                    (if children right \<noteq> [] then children node @ [hd (children right)]
                     else children node) (changed node)
      in TreeNode (block parent) ((keys parent)[index := hd (keys right)])
           ((children parent)[index + 1 := setValue (children parent ! (index + 1)) right',
                              index := setValue (children parent ! index) node'])
           (changed parent))"

text \<open>
  \<^verbatim>\<open>rebalance(stack)\<close>, with the popped node first and the rest of the stack after it.
  Reading \<^verbatim>\<open>parent.keys[index]\<close> past the end gives \<^verbatim>\<open>undefined\<close>, which the source would
  store as a key; merging with no sibling at all calls \<^verbatim>\<open>merge(null, ...)\<close>, a
  \<^verbatim>\<open>TypeError\<close>.
\<close>

fun rebalance :: "'k node \<Rightarrow> 'k frame list \<Rightarrow> error + 'k node" where
  "rebalance node [] =
     (if keys node = [] \<and> children node \<noteq> [] then getChildNode node 0 else Inr node)"
| "rebalance node ((parent0, i) # stack) =
     (let parent = plug parent0 i node in
      if MIN_KEYS \<le> length (keys node) then Inr (zipUp parent stack)
      else
        (case siblings parent i of
           Inl err \<Rightarrow> Inl err
         | Inr (left, index, right) \<Rightarrow>
             if (case left of Some l \<Rightarrow> MIN_KEYS < length (keys l) | None \<Rightarrow> False) then
               (if index - 1 < length (keys parent)
                then Inr (zipUp (borrowLeft parent index node (the left)) stack)
                else Inl Unmodelled)
             else if (case right of Some r \<Rightarrow> MIN_KEYS < length (keys r) | None \<Rightarrow> False) then
               (if index < length (keys parent)
                then Inr (zipUp (borrowRight parent index node (the right)) stack)
                else Inl Unmodelled)
             else
               (let (index', l, r) =
                      (case left of Some l \<Rightarrow> (index - 1, l, Some node)
                                  | None \<Rightarrow> (index, node, right))
                in case r of
                     None \<Rightarrow> Inl TypeError
                   | Some r' \<Rightarrow>
                       if index' < length (keys parent) then
                         (case removeKey (plug parent index' (merge l r' (keys parent ! index')))
                                 index' of
                            Inl err \<Rightarrow> Inl err
                          | Inr parent' \<Rightarrow> rebalance parent' stack)
                       else Inl Unmodelled)))"

subsection \<open>indexChanges\<close>

text \<open>
  \<^verbatim>\<open>indexChanges(index, seq)\<close> writes to the array \<open>index\<close> and to the child cells of the
  nodes it visits. The result is the offset it returns, the node afterwards and the
  array afterwards; \<open>indexChildren\<close> is its loop over the children.
  A slot of the array is \<^verbatim>\<open>null\<close> (\<open>None\<close>) until the cell of its node is stored there.
\<close>

fun indexChanges :: "'k child option list \<Rightarrow> nat \<Rightarrow> 'k node \<Rightarrow> nat \<times> 'k node \<times> 'k child option list"
  and indexChildren :: "'k child option list \<Rightarrow> nat \<Rightarrow> 'k child list \<Rightarrow> 'k child list \<times> 'k child option list"
where
  "indexChanges index seq (TreeNode blk ks cs ch) =
     (let offset = length index;
          (cs', index') = indexChildren (index @ [None]) seq cs
      in (offset, TreeNode blk ks cs' False, index'))"
| "indexChildren index seq [] = ([], index)"
| "indexChildren index seq (Child s off None # rest) =
     (let (rest', index') = indexChildren index seq rest
      in (Child s off None # rest', index'))"
| "indexChildren index seq (Child s off (Some n) # rest) =
     (if \<not> changed n then
        (let (rest', index') = indexChildren index seq rest
         in (Child s off (Some n) # rest', index'))
      else
        (let (off', n', index1) = indexChanges index seq n;
             child = Child seq off' (Some n');
             (rest', index2) = indexChildren (index1[off' := Some child]) seq rest
         in (child # rest', index2)))"


section \<open>The index of a block on the wire\<close>

subsection \<open>The YoloIndex codec\<close>

text \<open>
  Modelled from the spec: \<^verbatim>\<open>YoloIndex.encode\<close> and \<^verbatim>\<open>YoloIndex.decode\<close> come from
  \<^verbatim>\<open>lib/messages\<close>, which is generated from \<^verbatim>\<open>schema.proto\<close> and is not among the sources.
  The spec gives the wire schema
  \<^verbatim>\<open>YoloIndex { levels: [Level]; Level { keys: [uint64] packed; children: [uint64] packed } }\<close>,
  "bit-exact, packed varint throughout". What follows is that encoding: a number is a
  base-128 varint, least significant group first, with the high bit set on every byte
  but the last; a packed field is its tag byte, the byte length of its payload and the
  varints of its elements one after another, and is left out when it has no element;
  a level is an embedded message under tag \<open>10\<close> (field 1, length-delimited), with its
  keys under tag \<open>10\<close> and its children under tag \<open>18\<close> (field 2).
  A byte is its value, \<open>0\<close> to \<open>255\<close>. A level is the pair of its \<^verbatim>\<open>keys\<close> and its
  \<^verbatim>\<open>children\<close> array.
  The decoder refuses a tag the schema does not have (the encoder writes none).
\<close>

type_synonym level = "nat list \<times> nat list"

function varint :: "nat \<Rightarrow> nat list" where
  "varint n = (if n < 128 then [n] else (128 + n mod 128) # varint (n div 128))"
  by pat_completeness auto
termination
  by (relation "measure (\<lambda>n. n)") auto

declare varint.simps [simp del]

fun unvarint :: "nat list \<Rightarrow> (nat \<times> nat list) option" where
  "unvarint [] = None"
| "unvarint (b # bs) =
     (if b < 128 then Some (b, bs)
      else (case unvarint bs of
              None \<Rightarrow> None
            | Some (n, rest) \<Rightarrow> Some (b - 128 + 128 * n, rest)))"

definition packed :: "nat list \<Rightarrow> nat list" where
  "packed xs = concat (map varint xs)"

lemma unvarint_length:
  "unvarint bs = Some (n, rest) \<Longrightarrow> length rest < length bs"
  by (induction bs arbitrary: n rest) (auto split: if_splits option.splits)

function unpacked :: "nat list \<Rightarrow> nat list option" where
  "unpacked bs =
     (if bs = [] then Some []
      else (case unvarint bs of
              None \<Rightarrow> None
            | Some (n, rest) \<Rightarrow> map_option (Cons n) (unpacked rest)))"
  by pat_completeness auto
termination
  by (relation "measure length") (auto dest: unvarint_length)

declare unpacked.simps [simp del]

definition field :: "nat \<Rightarrow> nat list \<Rightarrow> nat list" where
  "field tag payload = tag # varint (length payload) @ payload"

definition encodeLevel :: "level \<Rightarrow> nat list" where
  "encodeLevel l =
     (if fst l = [] then [] else field 10 (packed (fst l))) @
     (if snd l = [] then [] else field 18 (packed (snd l)))"

definition encodeYoloIndex :: "level list \<Rightarrow> nat list" where
  "encodeYoloIndex levels = concat (map (\<lambda>l. field 10 (encodeLevel l)) levels)"

text \<open>One field off the front of a buffer: its tag, its payload and the bytes after it.\<close>

definition unfield :: "nat list \<Rightarrow> (nat \<times> nat list \<times> nat list) option" where
  "unfield bs =
     (case bs of
        [] \<Rightarrow> None
      | tag # bs1 \<Rightarrow>
          (case unvarint bs1 of
             None \<Rightarrow> None
           | Some (len, bs2) \<Rightarrow>
               if len \<le> length bs2 then Some (tag, take len bs2, drop len bs2) else None))"

lemma unfield_length:
  "unfield bs = Some (tag, payload, rest) \<Longrightarrow> length rest < length bs"
proof -
  assume a: "unfield bs = Some (tag, payload, rest)"
  then obtain bs1 len bs2 where bs: "bs = tag # bs1" and u: "unvarint bs1 = Some (len, bs2)"
    and r: "rest = drop len bs2"
    by (auto simp: unfield_def split: list.splits option.splits if_splits)
  from u have "length bs2 < length bs1" by (rule unvarint_length)
  then show ?thesis using bs r by simp
qed

function decodeLevel :: "nat list \<Rightarrow> level \<Rightarrow> level option" where
  "decodeLevel bs l =
     (if bs = [] then Some l
      else (case unfield bs of
              None \<Rightarrow> None
            | Some (tag, payload, rest) \<Rightarrow>
                (case unpacked payload of
                   None \<Rightarrow> None
                 | Some xs \<Rightarrow>
                     if tag = 10 then decodeLevel rest (fst l @ xs, snd l)
                     else if tag = 18 then decodeLevel rest (fst l, snd l @ xs)
                     else None)))"
  by pat_completeness auto
termination
  by (relation "measure (\<lambda>(bs, l). length bs)") (auto dest: unfield_length)

declare decodeLevel.simps [simp del]

function decodeYoloIndex :: "nat list \<Rightarrow> level list option" where
  "decodeYoloIndex bs =
     (if bs = [] then Some []
      else (case unfield bs of
              None \<Rightarrow> None
            | Some (tag, payload, rest) \<Rightarrow>
                if tag = 10 then
                  (case decodeLevel payload ([], []) of
                     None \<Rightarrow> None
                   | Some l \<Rightarrow> map_option (Cons l) (decodeYoloIndex rest))
                else None))"
  by pat_completeness auto
termination
  by (relation "measure length") (auto dest: unfield_length)

declare decodeYoloIndex.simps [simp del]

subsection \<open>deflate and inflate\<close>

text \<open>
  \<^verbatim>\<open>deflate(index)\<close> reads \<^verbatim>\<open>l.value.keys[i].seq\<close> and the \<^verbatim>\<open>seq\<close> and \<^verbatim>\<open>offset\<close> of
  \<^verbatim>\<open>l.value.children[i]\<close> of every entry \<open>l\<close>: an entry that is \<^verbatim>\<open>null\<close>, or whose
  \<^verbatim>\<open>value\<close> is, is a \<^verbatim>\<open>TypeError\<close>.
\<close>

fun mapE :: "('a \<Rightarrow> error + 'b) \<Rightarrow> 'a list \<Rightarrow> error + 'b list" where
  "mapE f [] = Inr []"
| "mapE f (x # xs) =
     (case f x of
        Inl err \<Rightarrow> Inl err
      | Inr y \<Rightarrow> (case mapE f xs of Inl err \<Rightarrow> Inl err | Inr ys \<Rightarrow> Inr (y # ys)))"

definition levelOf :: "'k child option \<Rightarrow> error + level" where
  "levelOf l =
     (case l of
        None \<Rightarrow> Inl TypeError
      | Some c \<Rightarrow>
          (case cvalue c of
             None \<Rightarrow> Inl TypeError
           | Some n \<Rightarrow>
               Inr (map kseq (keys n), concat (map (\<lambda>c. [cseq c, coffset c]) (children n)))))"

definition deflate :: "'k child option list \<Rightarrow> error + nat list" where
  "deflate index =
     (case mapE levelOf index of
        Inl err \<Rightarrow> Inl err
      | Inr levels \<Rightarrow> Inr (encodeYoloIndex levels))"

text \<open>
  \<^verbatim>\<open>new Pointers(buf)\<close>: the levels of the decoded index, each with its keys as
  \<^verbatim>\<open>new Key(seq, null)\<close> and its children, read two numbers at a time, as
  \<^verbatim>\<open>new Child(seq, offset, null)\<close>. An odd number of them would leave the last
  offset \<^verbatim>\<open>undefined\<close>. A buffer the decoder refuses makes it throw.
\<close>

datatype decode_error = Malformed | OddChildren

fun pairUp :: "nat list \<Rightarrow> 'k child list option" where
  "pairUp [] = Some []"
| "pairUp [s] = None"
| "pairUp (s # off # rest) = map_option (Cons (Child s off None)) (pairUp rest)"

type_synonym 'k pointers = "('k key list \<times> 'k child list) list"

fun pointerLevels :: "level list \<Rightarrow> decode_error + 'k pointers" where
  "pointerLevels [] = Inr []"
| "pointerLevels (l # ls) =
     (case pairUp (snd l) of
        None \<Rightarrow> Inl OddChildren
      | Some cs \<Rightarrow>
          (case pointerLevels ls of
             Inl err \<Rightarrow> Inl err
           | Inr rest \<Rightarrow> Inr ((map (\<lambda>s. Key s None) (fst l), cs) # rest)))"

definition inflate :: "nat list \<Rightarrow> decode_error + 'k pointers" where
  "inflate buf =
     (case decodeYoloIndex buf of
        None \<Rightarrow> Inl Malformed
      | Some levels \<Rightarrow> pointerLevels levels)"


section \<open>The tree handle and the batch\<close>

text \<open>
  The log (\<^verbatim>\<open>feed\<close>) is the list of its blocks: the header at position \<open>0\<close>, and for a
  tree block the message \<^verbatim>\<open>Node { index, key, value }\<close> that \<^verbatim>\<open>_append\<close> encodes
  (its own codec, like the log, is an external collaborator).
  Keys and values are the bytes after \<^verbatim>\<open>_enc\<close>; a value of \<open>None\<close> is \<^verbatim>\<open>null\<close>.
\<close>

datatype ('k, 'v) block = Header | Node (nindex: "nat list") (nkey: 'k) (nvalue: "'v option")

text \<open>
  \<^verbatim>\<open>class HyperBee\<close>: the shared log and the field \<^verbatim>\<open>_checkout\<close>. The version given to the
  constructor and to \<^verbatim>\<open>checkout\<close> is a number or is absent (\<open>None\<close>);
  \<^verbatim>\<open>a || b\<close> on numbers is \<open>a\<close> unless \<open>a\<close> is \<open>0\<close>.
\<close>

record ('k, 'v) hyperbee =
  feed :: "('k, 'v) block list"
  checkout' :: int

definition js_or :: "int \<Rightarrow> int \<Rightarrow> int" where
  "js_or a b = (if a \<noteq> 0 then a else b)"

definition HyperBee :: "('k, 'v) block list \<Rightarrow> int option \<Rightarrow> ('k, 'v) hyperbee" where
  "HyperBee fd opt_checkout =
     \<lparr> feed = fd,
       checkout' = js_or (case opt_checkout of None \<Rightarrow> 0 | Some v \<Rightarrow> v) 0 \<rparr>"

definition version :: "('k, 'v) hyperbee \<Rightarrow> int" where
  "version h = max 1 (js_or (checkout' h) (int (length (feed h))))"

definition checkout :: "('k, 'v) hyperbee \<Rightarrow> int option \<Rightarrow> ('k, 'v) hyperbee" where
  "checkout h v = HyperBee (feed h) v"

definition snapshot :: "('k, 'v) hyperbee \<Rightarrow> ('k, 'v) hyperbee" where
  "snapshot h = checkout h (Some (version h))"

text \<open>
  \<^verbatim>\<open>class BlockEntry\<close>, a block read from the log, with the bytes of its index
  (\<^verbatim>\<open>indexBuffer\<close>) until they are inflated into \<^verbatim>\<open>index\<close>;
  \<^verbatim>\<open>class BatchEntry\<close>, a block staged by a batch, and \<^verbatim>\<open>class Batch\<close>. The batches that
  \<open>get\<close>, \<open>put\<close>, \<open>del\<close> and \<open>batch\<close> of the handle create all have a cache, the map
  \<open>blocks\<close>, which holds the staged entries and the entries read from the log.
  The pending index of a staged entry holds its cells as they were when it was staged.
\<close>

datatype ('k, 'v) entry =
    BlockEntry (eseq: nat) (ekey: 'k) (evalue: "'v option")
      (indexBuffer: "nat list option") (eindex: "'k pointers option")
  | BatchEntry (eseq: nat) (ekey: 'k) (evalue: "'v option") (pendingIndex: "'k child option list")

record ('k, 'v) batch =
  tree :: "('k, 'v) hyperbee"
  blocks :: "nat \<rightharpoonup> ('k, 'v) entry"
  autoFlush :: bool
  rootSeq :: nat
  root :: "'k node option"
  length' :: nat

definition Batch :: "('k, 'v) hyperbee \<Rightarrow> bool \<Rightarrow> ('k, 'v) batch" where
  "Batch t af =
     \<lparr> tree = t, blocks = Map.empty, autoFlush = af, rootSeq = 0, root = None, length' = 0 \<rparr>"

text \<open>\<^verbatim>\<open>final()\<close> with no codec set: \<^verbatim>\<open>{ seq, key, value }\<close>.\<close>

definition final :: "('k, 'v) entry \<Rightarrow> nat \<times> 'k \<times> 'v option" where
  "final e = (eseq e, ekey e, evalue e)"

text \<open>
  What a handle finds around it: whether the log is writable, whether the options leave
  updates on (\<^verbatim>\<open>(opts && opts.update) !== false\<close>), and the blocks that an update of a
  log that is not writable makes known (the log and its peers are external
  collaborators).
\<close>

record ('k, 'v) env =
  writable :: bool
  optUpdate :: bool
  arrived :: "('k, 'v) block list"

text \<open>
  \<^verbatim>\<open>ready()\<close>: the first call opens the log and appends the header to a writable log that
  is empty; a later call finds the log as the first left it, so nothing is kept of the
  memo \<^verbatim>\<open>_ready\<close>.
\<close>

definition ready :: "('k, 'v) env \<Rightarrow> ('k, 'v) hyperbee \<Rightarrow> ('k, 'v) hyperbee" where
  "ready env t =
     (if 0 < length (feed t) \<or> \<not> writable env then t else t\<lparr> feed := feed t @ [Header] \<rparr>)"

text \<open>
  \<^verbatim>\<open>update()\<close>: the log takes notice of the blocks its peers have.
\<close>

definition update :: "('k, 'v) env \<Rightarrow> ('k, 'v) hyperbee \<Rightarrow> ('k, 'v) hyperbee" where
  "update env t = t\<lparr> feed := feed t @ arrived env \<rparr>"

text \<open>
  \<^verbatim>\<open>HyperBee.getBlock(seq)\<close>: \<^verbatim>\<open>feed.get\<close> with the \<^verbatim>\<open>Node\<close> codec. A block that the log
  does not hold yet has to come from a peer; the header does not decode as a \<^verbatim>\<open>Node\<close>,
  which has a required key.
\<close>

definition feedGet :: "('k, 'v) block list \<Rightarrow> nat \<Rightarrow> error + ('k, 'v) entry" where
  "feedGet fd seq =
     (if seq < length fd then
        (case fd ! seq of
           Node idx k v \<Rightarrow> Inr (BlockEntry seq k v (Some idx) None)
         | Header \<Rightarrow> Inl Undecodable)
      else Inl (NeedsBlock seq))"

text \<open>
  \<^verbatim>\<open>Batch.getBlock(seq)\<close>: it notes the first sequence number asked for, answers from
  the cache when it can, and caches what it reads. The hook \<^verbatim>\<open>onseq\<close> is left out.
\<close>

definition getBlock :: "('k, 'v) batch \<Rightarrow> nat \<Rightarrow> error + (('k, 'v) entry \<times> ('k, 'v) batch)" where
  "getBlock b seq =
     (let b' = (if rootSeq b = 0 then b\<lparr>rootSeq := seq\<rparr> else b)
      in case blocks b' seq of
           Some e \<Rightarrow> Inr (e, b')
         | None \<Rightarrow>
             (case feedGet (feed (tree b')) seq of
                Inl err \<Rightarrow> Inl err
              | Inr e \<Rightarrow> Inr (e, b'\<lparr> blocks := (blocks b')(seq \<mapsto> e) \<rparr>)))"

text \<open>
  \<^verbatim>\<open>getTreeNode(offset)\<close>. A block entry inflates its index on the first call and keeps
  it; the result is the node and the entry afterwards. A staged entry gives the value of
  the cell at \<open>offset\<close> of its pending index, which may be \<^verbatim>\<open>null\<close>.
\<close>

definition getTreeNode :: "('k, 'v) entry \<Rightarrow> nat \<Rightarrow> error + ('k node option \<times> ('k, 'v) entry)" where
  "getTreeNode e offset =
     (case e of
        BatchEntry s k v pending \<Rightarrow>
          (if offset < length pending then
             (case pending ! offset of
                None \<Rightarrow> Inl TypeError
              | Some c \<Rightarrow> Inr (cvalue c, e))
           else Inl TypeError)
      | BlockEntry s k v buf idx \<Rightarrow>
          (case (case idx of
                   Some ls \<Rightarrow> Inr ls
                 | None \<Rightarrow>
                     (case buf of
                        None \<Rightarrow> Inl TypeError
                      | Some bytes \<Rightarrow>
                          (case inflate bytes of
                             Inl Malformed \<Rightarrow> Inl Undecodable
                           | Inl OddChildren \<Rightarrow> Inl Unmodelled
                           | Inr ls \<Rightarrow> Inr ls))) of
             Inl err \<Rightarrow> Inl err
           | Inr ls \<Rightarrow>
               if offset < length ls then
                 Inr (Some (TreeNode (Some s) (fst (ls ! offset)) (snd (ls ! offset)) False),
                      BlockEntry s k v None (Some ls))
               else Inl TypeError))"

text \<open>
  \<^verbatim>\<open>HyperBee.getRoot(opts, batch)\<close>: after \<^verbatim>\<open>ready()\<close>, and after an update when the
  handle is not checked out and the log is not writable, there is no root for a log
  without a tree block, and otherwise the root is level \<open>0\<close> of the last block, read
  through the batch. The entry in the cache is the object that \<^verbatim>\<open>getTreeNode\<close> changes.
\<close>

definition treeRoot :: "('k, 'v) env \<Rightarrow> ('k, 'v) batch \<Rightarrow> error + ('k node option \<times> ('k, 'v) batch)" where
  "treeRoot env b =
     (let t1 = ready env (tree b);
          t2 = (if checkout' t1 = 0 \<and> \<not> writable env \<and> optUpdate env
                then update env t1 else t1);
          b1 = b\<lparr> tree := t2 \<rparr>;
          len = js_or (checkout' t2) (int (length (feed t2)))
      in if len < 2 then Inr (None, b1)
         else
           (case getBlock b1 (nat (len - 1)) of
              Inl err \<Rightarrow> Inl err
            | Inr (e, b2) \<Rightarrow>
                (case getTreeNode e 0 of
                   Inl err \<Rightarrow> Inl err
                 | Inr (n, e') \<Rightarrow>
                     Inr (n, b2\<lparr> blocks := (blocks b2)(nat (len - 1) \<mapsto> e') \<rparr>))))"

text \<open>\<^verbatim>\<open>Batch.getRoot()\<close>: the root the batch has, or the one of the tree.\<close>

definition getRoot :: "('k, 'v) env \<Rightarrow> ('k, 'v) batch \<Rightarrow> error + ('k node option \<times> ('k, 'v) batch)" where
  "getRoot env b =
     (case root b of
        Some r \<Rightarrow> Inr (Some r, b)
      | None \<Rightarrow> treeRoot env b)"

subsection \<open>get\<close>

text \<open>
  The descent of \<^verbatim>\<open>get\<close>, up to the sequence number of the key that was found.
  The extension hook \<^verbatim>\<open>onwait\<close> belongs to an external collaborator and is left out.
\<close>

function getLoop :: "('k \<Rightarrow> 's::linorder) \<Rightarrow> 'k \<Rightarrow> 'k node \<Rightarrow> error + nat option" where
  "getLoop str key node =
     (case search str key node of
        Inl err \<Rightarrow> Inl err
      | Inr (Found mid) \<Rightarrow> Inr (Some (kseq (keys node ! mid)))
      | Inr (Missed i) \<Rightarrow>
          if children node = [] then Inr None
          else (case getChildNode node i of
                  Inl err \<Rightarrow> Inl err
                | Inr n \<Rightarrow> getLoop str key n))"
  by pat_completeness auto
termination
  by (relation "measure (\<lambda>(str, key, node). size node)") (auto dest: getChildNode_size)

declare getLoop.simps [simp del]

definition get :: "('k \<Rightarrow> 's::linorder) \<Rightarrow> ('k, 'v) env \<Rightarrow> ('k, 'v) batch \<Rightarrow> 'k \<Rightarrow>
    error + ((nat \<times> 'k \<times> 'v option) option \<times> ('k, 'v) batch)" where
  "get str env b key =
     (case getRoot env b of
        Inl err \<Rightarrow> Inl err
      | Inr (None, b1) \<Rightarrow> Inr (None, b1)
      | Inr (Some node, b1) \<Rightarrow>
          (case getLoop str key node of
             Inl err \<Rightarrow> Inl err
           | Inr None \<Rightarrow> Inr (None, b1)
           | Inr (Some seq) \<Rightarrow>
               (case getBlock b1 seq of
                  Inl err \<Rightarrow> Inl err
                | Inr (e, b2) \<Rightarrow> Inr (Some (final e), b2))))"

subsection \<open>_append\<close>

text \<open>
  The index that \<^verbatim>\<open>_append(root, seq, key, value)\<close> builds:
  \<^verbatim>\<open>root.indexChanges(index, seq)\<close> and then \<^verbatim>\<open>index[0] = new Child(seq, 0, root)\<close>.
  In a batch (no \<^verbatim>\<open>autoFlush\<close>) the root gets the staged entry as its block when it has
  none; the cell at offset \<open>0\<close> holds that same root object. The result is the root
  afterwards and the index.
\<close>

definition rootIndex :: "bool \<Rightarrow> 'k node \<Rightarrow> nat \<Rightarrow> 'k node \<times> 'k child option list" where
  "rootIndex af rt seq =
     (let (offset, rt1, index) = indexChanges [] seq rt;
          rt2 = (if af then rt1
                 else TreeNode (case block rt1 of None \<Rightarrow> Some seq | Some blk \<Rightarrow> Some blk)
                        (keys rt1) (children rt1) (changed rt1))
      in (rt2, index[0 := Some (Child seq 0 (Some rt2))]))"

text \<open>
  \<^verbatim>\<open>_append\<close>: a batch stages the entry and moves its root; with \<^verbatim>\<open>autoFlush\<close> the
  encoded block goes to the log.
\<close>

definition append :: "('k, 'v) batch \<Rightarrow> 'k node \<Rightarrow> nat \<Rightarrow> 'k \<Rightarrow> 'v option \<Rightarrow> error + ('k, 'v) batch" where
  "append b rt seq key val =
     (let (rt', index) = rootIndex (autoFlush b) rt seq in
      if \<not> autoFlush b then
        Inr (b\<lparr> root := Some rt', length' := length' b + 1,
                   blocks := (blocks b)(seq \<mapsto> BatchEntry seq key val index) \<rparr>)
      else
        (case deflate index of
           Inl err \<Rightarrow> Inl err
         | Inr bytes \<Rightarrow>
             Inr (b\<lparr> tree := (tree b)\<lparr> feed := feed (tree b) @ [Node bytes key val] \<rparr> \<rparr>)))"

subsection \<open>put\<close>

text \<open>
  The descent of \<^verbatim>\<open>put\<close> through the nodes that have children: it ends with the key
  replaced in a node on the way (\<open>Replaced\<close>, with the root afterwards) or at a leaf.
\<close>

datatype 'k descent = Replaced "'k node" | AtLeaf "'k node" "'k frame list"

lemma size_markChanged: "size (markChanged n) = size n"
  by (cases n) (simp add: markChanged_def)

function putDescend :: "('k \<Rightarrow> 's::linorder) \<Rightarrow> nat \<Rightarrow> 'k \<Rightarrow> 'k node \<Rightarrow> 'k frame list \<Rightarrow>
    error + 'k descent" where
  "putDescend str seq key node stack =
     (if children node \<noteq> [] then
        (let node' = markChanged node in
         case search str key node' of
           Inl err \<Rightarrow> Inl err
         | Inr (Found mid) \<Rightarrow> Inr (Replaced (zipUp (setKey node' mid (Key seq (Some key))) stack))
         | Inr (Missed i) \<Rightarrow>
             (case getChildNode node' i of
                Inl err \<Rightarrow> Inl err
              | Inr n \<Rightarrow> putDescend str seq key n ((node', i) # stack)))
      else Inr (AtLeaf node stack))"
  by pat_completeness auto
termination
  by (relation "measure (\<lambda>(str, seq, key, node, stack). size node)")
     (auto dest!: getChildNode_size simp: size_markChanged)

declare putDescend.simps [simp del]

text \<open>
  The loop \<^verbatim>\<open>while (needsSplit)\<close>, entered with \<^verbatim>\<open>needsSplit\<close> true: the result is the
  root afterwards.
\<close>

fun putSplit :: "('k \<Rightarrow> 's::linorder) \<Rightarrow> 'k node \<Rightarrow> 'k frame list \<Rightarrow> error + 'k node" where
  "putSplit str node [] =
     (case split node of
        Inl err \<Rightarrow> Inl err
      | Inr (left, median, right) \<Rightarrow>
          Inr (TreeNode (block left) [median]
                 [Child 0 0 (Some left), Child 0 0 (Some right)] True))"
| "putSplit str node ((parent, i) # stack) =
     (case split node of
        Inl err \<Rightarrow> Inl err
      | Inr (left, median, right) \<Rightarrow>
          (case insertKey str (plug parent i left) median (Some right) of
             Inl err \<Rightarrow> Inl err
           | Inr (ok, parent') \<Rightarrow>
               if \<not> ok then putSplit str parent' stack else Inr (zipUp parent' stack)))"

definition put :: "('k \<Rightarrow> 's::linorder) \<Rightarrow> ('k, 'v) env \<Rightarrow> ('k, 'v) batch \<Rightarrow> 'k \<Rightarrow> 'v option \<Rightarrow>
    error + ('k, 'v) batch" where
  "put str env b key val =
     (case getRoot env b of
        Inl err \<Rightarrow> Inl err
      | Inr (r, b1) \<Rightarrow>
          (let node = (case r of None \<Rightarrow> create None | Some n \<Rightarrow> n);
               seq = length (feed (tree b1)) + length' b1
           in case putDescend str seq key node [] of
                Inl err \<Rightarrow> Inl err
              | Inr (Replaced rt) \<Rightarrow> append b1 rt seq key val
              | Inr (AtLeaf leaf stack) \<Rightarrow>
                  (case insertKey str leaf (Key seq (Some key)) None of
                     Inl err \<Rightarrow> Inl err
                   | Inr (ok, leaf') \<Rightarrow>
                       (let needsSplit = \<not> ok in
                        case (if needsSplit then putSplit str leaf' stack
                              else Inr (zipUp leaf' stack)) of
                          Inl err \<Rightarrow> Inl err
                        | Inr rt \<Rightarrow> append b1 rt seq key val))))"

subsection \<open>del\<close>

text \<open>
  The descent of \<^verbatim>\<open>del\<close>: \<open>None\<close> when the key is not met (the source returns), and
  otherwise the top of the stack and the stack under it after the key was taken out.
\<close>

function delDescend :: "('k \<Rightarrow> 's::linorder) \<Rightarrow> 'k \<Rightarrow> 'k node \<Rightarrow> 'k frame list \<Rightarrow>
    error + ('k node \<times> 'k frame list) option" where
  "delDescend str key node stack =
     (case search str key node of
        Inl err \<Rightarrow> Inl err
      | Inr (Found mid) \<Rightarrow>
          if children node \<noteq> [] then map_sum id Some (setKeyToNearestLeaf node mid stack)
          else map_sum id (\<lambda>n. Some (n, stack)) (removeKey node mid)
      | Inr (Missed i) \<Rightarrow>
          if children node = [] then Inr None
          else (case getChildNode node i of
                  Inl err \<Rightarrow> Inl err
                | Inr n \<Rightarrow> delDescend str key n ((node, i) # stack)))"
  by pat_completeness auto
termination
  by (relation "measure (\<lambda>(str, key, node, stack). size node)") (auto dest: getChildNode_size)

declare delDescend.simps [simp del]

definition del :: "('k \<Rightarrow> 's::linorder) \<Rightarrow> ('k, 'v) env \<Rightarrow> ('k, 'v) batch \<Rightarrow> 'k \<Rightarrow>
    error + ('k, 'v) batch" where
  "del str env b key =
     (case getRoot env b of
        Inl err \<Rightarrow> Inl err
      | Inr (None, b1) \<Rightarrow> Inr b1
      | Inr (Some node, b1) \<Rightarrow>
          (let seq = length (feed (tree b1)) + length' b1
           in case delDescend str key node [] of
                Inl err \<Rightarrow> Inl err
              | Inr None \<Rightarrow> Inr b1
              | Inr (Some (leaf, stack)) \<Rightarrow>
                  (case rebalance (markChanged leaf)
                          (map (\<lambda>(n, i). (markChanged n, i)) stack) of
                     Inl err \<Rightarrow> Inl err
                   | Inr rt \<Rightarrow> append b1 rt seq key None)))"

subsection \<open>flush\<close>

text \<open>
  \<^verbatim>\<open>flush()\<close>. With nothing staged it returns at once. Otherwise it encodes the staged
  blocks, resets the batch and appends them in one call. The loop that compacts and
  encodes the pending indexes renumbers cells that the nodes of later blocks share; the
  blocks it builds are the parameter \<open>staged\<close> here.
\<close>

definition flush :: "(('k, 'v) batch \<Rightarrow> ('k, 'v) block list) \<Rightarrow> ('k, 'v) batch \<Rightarrow> ('k, 'v) batch" where
  "flush staged b =
     (if length' b = 0 then b
      else b\<lparr> root := None, blocks := Map.empty, length' := 0,
              tree := (tree b)\<lparr> feed := feed (tree b) @ staged b \<rparr> \<rparr>)"


section \<open>Loaded nodes and the key bytes of a node\<close>

text \<open>
  The statements below are about nodes that are in memory: \<open>keys_loaded\<close> says that
  every key of a node carries its bytes, \<open>kstr str k\<close> is the string that \<open>cmp\<close> compares
  for the key \<open>k\<close>, \<open>vals str node\<close> are those strings for the keys of a node in order,
  and \<open>rank s vs\<close> is the number of entries of \<open>vs\<close> below \<open>s\<close>, which is the insertion
  index of \<open>s\<close> in an ascending \<open>vs\<close>.
\<close>

definition keys_loaded :: "'k node \<Rightarrow> bool" where
  "keys_loaded node = list_all (\<lambda>k. kvalue k \<noteq> None) (keys node)"

definition kstr :: "('k \<Rightarrow> 's) \<Rightarrow> 'k key \<Rightarrow> 's" where
  "kstr str k = str (the (kvalue k))"

definition vals :: "('k \<Rightarrow> 's) \<Rightarrow> 'k node \<Rightarrow> 's list" where
  "vals str node = map (kstr str) (keys node)"

definition rank :: "'k::linorder \<Rightarrow> 'k list \<Rightarrow> nat" where
  "rank key vs = length (filter (\<lambda>v. v < key) vs)"

text \<open>
  The keys of a tree in order: the children of a node and its keys interleaved
  (\<open>elems\<close>), their bytes (\<open>kbytes\<close>) and the strings they are compared by (\<open>inorder\<close>).
  A child that is not loaded contributes nothing.
\<close>

definition kbytes :: "'k key \<Rightarrow> 'k" where
  "kbytes k = the (kvalue k)"

fun elems :: "'k node \<Rightarrow> 'k key list"
  and interleave :: "'k key list \<Rightarrow> 'k child list \<Rightarrow> 'k key list"
  and sub :: "'k child \<Rightarrow> 'k key list"
where
  "elems (TreeNode blk ks cs ch) = interleave ks cs"
| "interleave [] [] = []"
| "interleave (k # ks) [] = k # interleave ks []"
| "interleave [] (c # cs) = sub c @ interleave [] cs"
| "interleave (k # ks) (c # cs) = sub c @ k # interleave ks cs"
| "sub (Child s off None) = []"
| "sub (Child s off (Some n)) = elems n"



text \<open>
  A node as \<open>inflate\<close> gives it back: the sequence numbers of its keys and the
  \<open>(seq, offset)\<close> pairs of its children, in order, with nothing loaded.
\<close>

definition unloaded :: "'k node \<Rightarrow> 'k key list \<times> 'k child list" where
  "unloaded n =
     (map (\<lambda>k. Key (kseq k) None) (keys n),
      map (\<lambda>c. Child (cseq c) (coffset c) None) (children n))"

text \<open>
  What \<open>indexChanges\<close> is to do to the child cells of a node it serialises into the
  index \<open>idx\<close> of the block \<open>seq\<close>: \<open>renumbered seq idx old new\<close> compares a node before
  (\<open>old\<close>) and after (\<open>new\<close>). A cell whose node is not loaded or not marked changed is
  the same cell afterwards. A cell whose node is marked changed has sequence number
  \<open>seq\<close> afterwards, and its offset is a position of \<open>idx\<close> after the root's, the one
  where \<open>idx\<close> holds this cell; its node has been treated the same way.
\<close>

fun renumbered :: "nat \<Rightarrow> 'k child option list \<Rightarrow> 'k node \<Rightarrow> 'k node \<Rightarrow> bool"
  and renumbereds :: "nat \<Rightarrow> 'k child option list \<Rightarrow> 'k child list \<Rightarrow> 'k child list \<Rightarrow> bool"
where
  "renumbered seq idx (TreeNode blk ks cs ch) new =
     (block new = blk \<and> keys new = ks \<and> \<not> changed new \<and> renumbereds seq idx cs (children new))"
| "renumbereds seq idx [] cs' = (cs' = [])"
| "renumbereds seq idx (Child s off None # cs) cs' =
     (case cs' of
        [] \<Rightarrow> False
      | c' # rest \<Rightarrow> c' = Child s off None \<and> renumbereds seq idx cs rest)"
| "renumbereds seq idx (Child s off (Some n) # cs) cs' =
     (case cs' of
        [] \<Rightarrow> False
      | c' # rest \<Rightarrow>
          (if \<not> changed n then c' = Child s off (Some n)
           else cseq c' = seq \<and> 0 < coffset c' \<and> coffset c' < length idx
                \<and> idx ! coffset c' = Some c'
                \<and> (case cvalue c' of None \<Rightarrow> False | Some n' \<Rightarrow> renumbered seq idx n n'))
          \<and> renumbereds seq idx cs rest)"

definition filled :: "'k child option \<Rightarrow> bool" where
  "filled l = (case l of None \<Rightarrow> False | Some c \<Rightarrow> cvalue c \<noteq> None)"

text \<open>
  The shape of the B-tree. \<open>wfn h n\<close>: the node \<open>n\<close> is the root of a loaded subtree of
  height \<open>h\<close>; a leaf (\<open>h = 0\<close>) has no children, a node above has one more child than
  keys, and every child (\<open>okc\<close>) is such a subtree one level lower with at least
  \<open>MIN_KEYS\<close> and at most \<open>2 * MIN_KEYS\<close> keys. The number of keys of \<open>n\<close> itself is
  bounded by \<open>root_ok\<close> for a root: at most \<open>2 * MIN_KEYS\<close>, and at least one when it
  has children.
\<close>

fun wfn :: "nat \<Rightarrow> 'k node \<Rightarrow> bool"
  and wfs :: "nat \<Rightarrow> 'k child list \<Rightarrow> bool"
where
  "wfn 0 (TreeNode blk ks cs ch) = (list_all (\<lambda>k. kvalue k \<noteq> None) ks \<and> cs = [])"
| "wfn (Suc h) (TreeNode blk ks cs ch) =
     (list_all (\<lambda>k. kvalue k \<noteq> None) ks \<and> length cs = length ks + 1 \<and> wfs h cs)"
| "wfs h [] = True"
| "wfs h (Child s off None # cs) = False"
| "wfs h (Child s off (Some n) # cs) =
     (wfn h n \<and> MIN_KEYS \<le> length (keys n) \<and> length (keys n) \<le> 2 * MIN_KEYS \<and> wfs h cs)"

definition okc :: "nat \<Rightarrow> 'k child \<Rightarrow> bool" where
  "okc h c =
     (case cvalue c of
        None \<Rightarrow> False
      | Some n \<Rightarrow> wfn h n \<and> MIN_KEYS \<le> length (keys n) \<and> length (keys n) \<le> 2 * MIN_KEYS)"

definition root_ok :: "nat \<Rightarrow> 'k node \<Rightarrow> bool" where
  "root_ok h n = (wfn h n \<and> length (keys n) \<le> 2 * MIN_KEYS \<and> (0 < h \<longrightarrow> keys n \<noteq> []))"

definition ksorted :: "('k \<Rightarrow> 's::linorder) \<Rightarrow> 'k key list \<Rightarrow> bool" where
  "ksorted str xs = sorted_wrt (<) (map (kstr str) xs)"

text \<open>
  Insertion into and deletion from an ascending list of keys: what \<open>put\<close> and \<open>del\<close> are
  to do to the keys of the tree.
\<close>

fun ins_elem :: "('k \<Rightarrow> 's::linorder) \<Rightarrow> 'k key \<Rightarrow> 'k key list \<Rightarrow> 'k key list" where
  "ins_elem str x [] = [x]"
| "ins_elem str x (y # ys) =
     (if kstr str x < kstr str y then x # y # ys
      else if kstr str x = kstr str y then x # ys
      else y # ins_elem str x ys)"

fun del_elem :: "('k \<Rightarrow> 's) \<Rightarrow> 'k \<Rightarrow> 'k key list \<Rightarrow> 'k key list" where
  "del_elem str k [] = []"
| "del_elem str k (y # ys) = (if str k = kstr str y then ys else y # del_elem str k ys)"

text \<open>
  The keys around the hole of a frame and of a stack: \<open>ck\<close> lists children and keys
  alternately starting with a child, \<open>kc\<close> starting with a key.
\<close>

definition ck :: "'k child list \<Rightarrow> 'k key list \<Rightarrow> 'k key list" where
  "ck cs ks = concat (map (\<lambda>(c, k). sub c @ [k]) (zip cs ks))"

definition kc :: "'k key list \<Rightarrow> 'k child list \<Rightarrow> 'k key list" where
  "kc ks cs = concat (map (\<lambda>(k, c). k # sub c) (zip ks cs))"

fun pre :: "'k frame list \<Rightarrow> 'k key list" where
  "pre [] = []"
| "pre ((p, i) # st) = pre st @ ck (take i (children p)) (take i (keys p))"

fun post :: "'k frame list \<Rightarrow> 'k key list" where
  "post [] = []"
| "post ((p, i) # st) = kc (drop i (keys p)) (drop (Suc i) (children p)) @ post st"

text \<open>
  A stack that fits a tree: every frame is a node with children one level above the
  one below it, entered at a child it has, with at least one and at most
  \<open>2 * MIN_KEYS\<close> keys, and at least \<open>MIN_KEYS\<close> unless it is the root (the last frame).
  \<open>fits h n st\<close>: the node \<open>n\<close> of height \<open>h\<close> can hang in the hole of \<open>st\<close> as it is.
\<close>

fun stack_ok :: "nat \<Rightarrow> 'k frame list \<Rightarrow> bool" where
  "stack_ok h [] = True"
| "stack_ok h ((p, i) # st) =
     (wfn (Suc h) p \<and> i \<le> length (keys p) \<and> keys p \<noteq> [] \<and> length (keys p) \<le> 2 * MIN_KEYS
      \<and> (st \<noteq> [] \<longrightarrow> MIN_KEYS \<le> length (keys p)) \<and> stack_ok (Suc h) st)"

definition fits :: "nat \<Rightarrow> 'k node \<Rightarrow> 'k frame list \<Rightarrow> bool" where
  "fits h n st =
     (wfn h n \<and> length (keys n) \<le> 2 * MIN_KEYS
      \<and> (if st = [] then 0 < h \<longrightarrow> keys n \<noteq> [] else MIN_KEYS \<le> length (keys n)))"


section \<open>Facts about the node operations\<close>

subsection \<open>The binary search on ascending keys\<close>

lemma length_vals [simp]: "length (vals str node) = length (keys node)"
  by (simp add: vals_def)

lemma getKey_loaded:
  "keys_loaded node \<Longrightarrow> i < length (keys node) \<Longrightarrow> getKey node i = Inr (kbytes (keys node ! i))"
  by (auto simp: keys_loaded_def getKey_def kbytes_def list_all_length split: option.splits)

lemma vals_nth: "i < length (keys node) \<Longrightarrow> vals str node ! i = str (kbytes (keys node ! i))"
  by (simp add: vals_def kstr_def kbytes_def)

lemma rank_eq:
  assumes "i \<le> length vs"
    and "\<forall>j<i. vs ! j < key"
    and "\<forall>j. i \<le> j \<and> j < length vs \<longrightarrow> \<not> vs ! j < key"
  shows "rank key vs = i"
proof -
  have a: "filter (\<lambda>v. v < key) (take i vs) = take i vs"
    using assms(1,2) by (auto simp: filter_id_conv in_set_conv_nth)
  have b: "filter (\<lambda>v. v < key) (drop i vs) = []"
    using assms(1,3) by (auto simp: filter_empty_conv in_set_conv_nth)
  have "filter (\<lambda>v. v < key) vs =
      filter (\<lambda>v. v < key) (take i vs) @ filter (\<lambda>v. v < key) (drop i vs)"
    by (metis append_take_drop_id filter_append)
  then show ?thesis using a b assms(1) by (simp add: rank_def)
qed

lemma cmp_simps:
  "cmp str a b = 0 \<longleftrightarrow> str a = str b" "cmp str a b < 0 \<longleftrightarrow> str a < str b"
  by (auto simp: cmp_def)

lemma bsearch_sorted:
  assumes "keys_loaded node" and "sorted_wrt (<) (vals str node)"
    and "s \<le> e" and "e \<le> length (keys node)"
    and "\<forall>j<s. vals str node ! j < str key"
    and "\<forall>j. e \<le> j \<and> j < length (keys node) \<longrightarrow> str key < vals str node ! j"
  shows "bsearch str key node s e c =
           Inr (if str key \<in> set (vals str node) then Found (rank (str key) (vals str node))
                else Missed (rank (str key) (vals str node)))"
  using assms
proof (induction str key node s e c rule: bsearch.induct)
  case (1 str key node s e c)
  let ?vs = "vals str node"
  let ?k = "str key"
  note ld = "1.prems"(1) and so = "1.prems"(2)
  show ?case
  proof (cases "s < e")
    case False
    with "1.prems" have se: "s = e" by simp
    have r: "rank ?k ?vs = s"
      using "1.prems" se by (intro rank_eq) (auto simp: not_less_iff_gr_or_eq)
    have "?k \<notin> set ?vs"
    proof
      assume "?k \<in> set ?vs"
      then obtain j where j: "j < length ?vs" "?vs ! j = ?k" by (auto simp: in_set_conv_nth)
      then show False using "1.prems" se by (cases "j < s") (auto simp: not_less)
    qed
    moreover have "bsearch str key node s e c =
        Inr (Missed (case c of Some c' \<Rightarrow> if c' < 0 then e else s | None \<Rightarrow> s))"
      using False by (subst bsearch.simps) simp
    ultimately show ?thesis using se r by (simp split: option.splits)
  next
    case True
    let ?mid = "(s + e) div 2"
    let ?km = "kbytes (keys node ! ?mid)"
    let ?c = "cmp str key ?km"
    have mid: "s \<le> ?mid" "?mid < e" "?mid < length (keys node)" using True "1.prems" by auto
    have gk: "getKey node ?mid = Inr ?km" using ld mid by (simp add: getKey_loaded)
    have vm: "?vs ! ?mid = str ?km" using mid by (simp add: vals_nth)
    have unf: "bsearch str key node s e c =
        (if ?c = 0 then Inr (Found ?mid)
         else if ?c < 0 then bsearch str key node s ?mid (Some ?c)
              else bsearch str key node (?mid + 1) e (Some ?c))"
      using True gk by (subst bsearch.simps) (simp add: Let_def)
    consider (eq) "?k = ?vs ! ?mid" | (lt) "?k < ?vs ! ?mid" | (gt) "?vs ! ?mid < ?k"
      by (metis not_less_iff_gr_or_eq)
    then show ?thesis
    proof cases
      case eq
      have r: "rank ?k ?vs = ?mid"
      proof (rule rank_eq)
        show "?mid \<le> length ?vs" using mid by simp
        show "\<forall>j<?mid. ?vs ! j < ?k"
          using so mid eq by (auto simp: sorted_wrt_iff_nth_less)
        show "\<forall>j. ?mid \<le> j \<and> j < length ?vs \<longrightarrow> \<not> ?vs ! j < ?k"
        proof (intro allI impI)
          fix j assume j: "?mid \<le> j \<and> j < length ?vs"
          then have "?vs ! ?mid \<le> ?vs ! j"
            using so by (cases "?mid = j") (auto simp: sorted_wrt_iff_nth_less less_imp_le)
          then show "\<not> ?vs ! j < ?k" using eq by simp
        qed
      qed
      have "?k \<in> set ?vs" using eq mid by (auto simp: in_set_conv_nth)
      moreover have "?c = 0" using eq vm by (simp add: cmp_def)
      ultimately show ?thesis
        using r unf by simp
    next
      case lt
      have c0: "?c \<noteq> 0" "?c < 0"
        using lt vm by (auto simp: cmp_def)
      have "\<forall>j. ?mid \<le> j \<and> j < length (keys node) \<longrightarrow> ?k < ?vs ! j"
      proof (intro allI impI)
        fix j assume j: "?mid \<le> j \<and> j < length (keys node)"
        then have "?vs ! ?mid \<le> ?vs ! j"
          using so by (cases "?mid = j") (auto simp: sorted_wrt_iff_nth_less less_imp_le)
        then show "?k < ?vs ! j" using lt by simp
      qed
      then have "bsearch str key node s ?mid (Some ?c) =
           Inr (if ?k \<in> set ?vs then Found (rank ?k ?vs) else Missed (rank ?k ?vs))"
        using "1.IH"(1) [OF True refl gk refl] c0 mid "1.prems" by simp
      then show ?thesis
        using c0 unf by simp
    next
      case gt
      have c0: "?c \<noteq> 0" "\<not> ?c < 0"
        using gt vm by (auto simp: cmp_def)
      have "\<forall>j<?mid + 1. ?vs ! j < ?k"
      proof (intro allI impI)
        fix j assume j: "j < ?mid + 1"
        then have "?vs ! j \<le> ?vs ! ?mid"
          using so mid by (cases "?mid = j") (auto simp: sorted_wrt_iff_nth_less less_imp_le)
        then show "?vs ! j < ?k" using gt by simp
      qed
      then have "bsearch str key node (?mid + 1) e (Some ?c) =
           Inr (if ?k \<in> set ?vs then Found (rank ?k ?vs) else Missed (rank ?k ?vs))"
        using "1.IH"(2) [OF True refl gk refl] c0 mid "1.prems" by simp
      then show ?thesis
        using c0 unf by simp
    qed
  qed
qed

lemma search_sorted:
  assumes "keys_loaded node" and "sorted_wrt (<) (vals str node)"
  shows "search str key node =
           Inr (if str key \<in> set (vals str node) then Found (rank (str key) (vals str node))
                else Missed (rank (str key) (vals str node)))"
  unfolding search_def using assms by (intro bsearch_sorted) auto


text \<open>
  A key that compares equal to no key of a loaded node is missed by the search, whatever
  the order of the keys is.
\<close>

lemma bsearch_missed:
  assumes "keys_loaded node" and "str key \<notin> set (vals str node)"
    and "s \<le> e" and "e \<le> length (keys node)"
  shows "\<exists>i. i \<le> length (keys node) \<and> bsearch str key node s e c = Inr (Missed i)"
  using assms
proof (induction str key node s e c rule: bsearch.induct)
  case (1 str key node s e c)
  show ?case
  proof (cases "s < e")
    case False
    have "bsearch str key node s e c =
        Inr (Missed (case c of Some c' \<Rightarrow> if c' < 0 then e else s | None \<Rightarrow> s))"
      using False by (subst bsearch.simps) simp
    then show ?thesis using "1.prems" by (auto split: option.splits)
  next
    case True
    let ?mid = "(s + e) div 2"
    let ?km = "kbytes (keys node ! ?mid)"
    let ?c = "cmp str key ?km"
    have mid: "s \<le> ?mid" "?mid < e" "?mid < length (keys node)" using True "1.prems" by auto
    have gk: "getKey node ?mid = Inr ?km" using "1.prems" mid by (simp add: getKey_loaded)
    have unf: "bsearch str key node s e c =
        (if ?c = 0 then Inr (Found ?mid)
         else if ?c < 0 then bsearch str key node s ?mid (Some ?c)
              else bsearch str key node (?mid + 1) e (Some ?c))"
      using True gk by (subst bsearch.simps) (simp add: Let_def)
    have "vals str node ! ?mid \<in> set (vals str node)" using mid by simp
    then have "str ?km \<in> set (vals str node)" using mid by (simp add: vals_nth)
    then have ne: "?c \<noteq> 0" using "1.prems"(2) by (auto simp: cmp_def)
    show ?thesis
    proof (cases "?c < 0")
      case True
      then show ?thesis
        using "1.IH"(1) [OF \<open>s < e\<close> refl gk refl ne True] "1.prems" mid unf ne by simp
    next
      case False
      then show ?thesis
        using "1.IH"(2) [OF \<open>s < e\<close> refl gk refl ne False] "1.prems" mid unf ne by simp
    qed
  qed
qed

lemma search_missed:
  "keys_loaded node \<Longrightarrow> str key \<notin> set (vals str node) \<Longrightarrow>
     \<exists>i. i \<le> length (keys node) \<and> search str key node = Inr (Missed i)"
  unfolding search_def by (rule bsearch_missed) auto

lemma rank_le: "rank key vs \<le> length vs"
  by (simp add: rank_def)

lemma length_splice_in: "length (splice_in i x xs) = length xs + 1"
  by (simp add: splice_in_def)

subsection \<open>The loop of split\<close>

lemma popInto_eq:
  "n \<le> length src + length dst \<Longrightarrow> length dst \<le> n \<Longrightarrow>
   popInto n src dst =
     Inr (take (length src - (n - length dst)) src,
          dst @ rev (drop (length src - (n - length dst)) src))"
proof (induction n src dst rule: popInto.induct)
  case (1 n src dst)
  show ?case
  proof (cases "length dst < n")
    case False
    with "1.prems" show ?thesis by (simp add: popInto.simps)
  next
    case True
    with "1.prems" have ne: "src \<noteq> []" by auto
    then obtain xs x where src: "src = xs @ [x]" by (cases src rule: rev_cases) auto
    have ih: "popInto n xs (dst @ [x]) =
      Inr (take (length xs - (n - length (dst @ [x]))) xs,
           (dst @ [x]) @ rev (drop (length xs - (n - length (dst @ [x]))) xs))"
      using "1.IH" True ne "1.prems" src by simp
    have a: "length xs - (n - length (dst @ [x])) = length src - (n - length dst)"
      using True "1.prems" src by simp
    have m: "length src - (n - length dst) \<le> length xs" using True src by simp
    show ?thesis
      unfolding popInto.simps [of n src dst] using True ne ih m unfolding a by (simp add: src)
  qed
qed

lemma popInto_nil:
  "n \<le> length src \<Longrightarrow> popInto n src [] = Inr (take (length src - n) src, rev (drop (length src - n) src))"
  using popInto_eq [of n src "[]"] by simp


subsection \<open>insertKey and split on loaded nodes\<close>

lemma insertKey_missed:
  fixes node :: "'k node" and str :: "'k \<Rightarrow> 's::linorder"
  assumes "keys_loaded node" and "sorted_wrt (<) (vals str node)"
    and "kvalue key = Some kv" and "str kv \<notin> set (vals str node)"
  shows "insertKey str node key child =
           Inr (length (keys node) + 1 < MAX_CHILDREN,
                TreeNode (block node) (splice_in (rank (str kv) (vals str node)) key (keys node))
                  (case child of
                     None \<Rightarrow> children node
                   | Some n \<Rightarrow>
                       splice_in (rank (str kv) (vals str node) + 1) (Child 0 0 (Some n))
                         (children node))
                  True)"
  using assms
  by (simp add: insertKey_def search_sorted length_splice_in)

lemma insertKey_found:
  fixes node :: "'k node" and str :: "'k \<Rightarrow> 's::linorder"
  assumes "keys_loaded node" and "sorted_wrt (<) (vals str node)"
    and "kvalue key = Some kv" and "str kv \<in> set (vals str node)"
  shows "insertKey str node key child = Inr (True, setKey node (rank (str kv) (vals str node)) key)"
  using assms
  by (simp add: insertKey_def search_sorted)

lemma insertKey_at:
  "search str kv node = Inr (Missed i) \<Longrightarrow>
     insertKey str node (Key seq (Some kv)) child =
       Inr (length (keys node) + 1 < MAX_CHILDREN,
            TreeNode (block node) (splice_in i (Key seq (Some kv)) (keys node))
              (case child of
                 None \<Rightarrow> children node
               | Some n \<Rightarrow> splice_in (i + 1) (Child 0 0 (Some n)) (children node))
              True)"
  by (simp add: insertKey_def length_splice_in)

lemma split_eq:
  fixes node :: "'k node"
  defines "n \<equiv> length (keys node)"
  defines "len \<equiv> length (keys node) div 2"
  defines "m \<equiv> length (children node)"
  assumes "keys node \<noteq> []"
    and "children node = [] \<or> len + 1 \<le> m"
    and "kvalue (keys node ! (n - len - 1)) \<noteq> None"
  shows "split node =
           Inr (TreeNode (block node) (take (n - len - 1) (keys node))
                  (take (m - (len + 1)) (children node)) True,
                keys node ! (n - len - 1),
                TreeNode (block node) (drop (n - len) (keys node))
                  (drop (m - (len + 1)) (children node)) True)"
proof -
  let ?ks = "take (n - len) (keys node)"
  have n: "0 < n" "len < n" "len \<le> n" using assms(4) by (auto simp: n_def len_def)
  have p1: "popInto len (keys node) [] = Inr (?ks, rev (drop (n - len) (keys node)))"
    using n popInto_nil [of len "keys node"] by (simp add: n_def)
  have ks: "?ks \<noteq> []" "length ?ks = n - len" using n by (auto simp: n_def)
  have "n - len - 1 < n - len" using n by simp
  then have "?ks ! (n - len - 1) = keys node ! (n - len - 1)" by simp
  then have lk: "last ?ks = keys node ! (n - len - 1)"
    using ks by (simp add: last_conv_nth)
  have bl: "butlast ?ks = take (n - len - 1) (keys node)"
    using n by (simp add: butlast_take n_def)
  have gk: "\<exists>v. getKey (TreeNode (block node) ?ks (children node) (changed node)) (length ?ks - 1) = Inr v"
    using assms(6) ks n lk by (auto simp: getKey_def n_def split: option.splits)
  have p2: "children node \<noteq> [] \<Longrightarrow> popInto (len + 1) (children node) [] =
      Inr (take (m - (len + 1)) (children node), rev (drop (m - (len + 1)) (children node)))"
    using assms(5) popInto_nil [of "len + 1" "children node"] by (simp add: m_def)
  show ?thesis
  proof (cases "children node = []")
    case True
    with gk p1 ks lk bl show ?thesis
      unfolding split_def Let_def len_def [symmetric] by auto
  next
    case False
    with gk p1 p2 ks lk bl show ?thesis
      unfolding split_def Let_def len_def [symmetric] by auto
  qed
qed

section \<open>Claims about single nodes\<close>

text \<open>
  C2, as the spec has it: inserting a key that the node does not hold splices it at its
  insertion index, and \<open>insertKey\<close> returns true iff the node then has fewer than
  \<open>2T = 10\<close> keys. The source compares with \<open>MAX_CHILDREN = 2 * MIN_KEYS + 1 = 9\<close>: a
  node with eight keys takes a ninth, has nine keys, fewer than ten, and \<open>insertKey\<close>
  returns false.
\<close>

theorem insertKey_ten_counterexample:
  "insertKey (\<lambda>k. k) (TreeNode None
       [Key 1 (Some 1), Key 2 (Some 2), Key 3 (Some 3), Key 4 (Some 4),
        Key 5 (Some 5), Key 6 (Some 6), Key 7 (Some 7), Key 8 (Some 8)] [] False)
     (Key 9 (Some (9::nat))) None =
   Inr (False, TreeNode None
       [Key 1 (Some 1), Key 2 (Some 2), Key 3 (Some 3), Key 4 (Some 4),
        Key 5 (Some 5), Key 6 (Some 6), Key 7 (Some 7), Key 8 (Some 8), Key 9 (Some 9)] [] True)
   \<and> length [Key 1 (Some 1), Key 2 (Some 2), Key 3 (Some 3), Key 4 (Some 4),
        Key 5 (Some 5), Key 6 (Some 6), Key 7 (Some 7), Key 8 (Some 8), Key 9 (Some (9::nat))] < 2 * T"
  by code_simp

text \<open>
  C2, amended: for every node (with its keys in memory) and every key that compares
  equal to none of its keys, \<open>insertKey\<close> splices the key (and the child, when there is
  one, one place further) at the insertion index, the index \<open>i\<close> at which its search ends,
  and returns true iff the node then has fewer than \<open>MAX_CHILDREN = 9\<close> keys. The callers
  run a split exactly when the result is false: \<open>put\<close>, after the insertion into the leaf,
  goes on with the leaf in its place under the stack when the result \<open>ok\<close> is true and
  with the split loop \<open>putSplit\<close> when it is false; the loop splits the node it is given
  and, after inserting the median into the parent, stops when that result is true and
  goes on with the parent when it is false; with no parent left it makes the new root.
\<close>

theorem insertKey_bound:
  fixes node :: "'k node" and str :: "'k \<Rightarrow> 's::linorder" and b :: "('k, 'v) batch"
  shows "(keys_loaded node \<and> str kv \<notin> set (vals str node) \<longrightarrow>
            (\<exists>i\<le>length (keys node). search str kv node = Inr (Missed i) \<and>
               insertKey str node (Key seq (Some kv)) child =
                 Inr (length (keys node) + 1 < MAX_CHILDREN,
                      TreeNode (block node) (splice_in i (Key seq (Some kv)) (keys node))
                        (case child of
                           None \<Rightarrow> children node
                         | Some n \<Rightarrow> splice_in (i + 1) (Child 0 0 (Some n)) (children node))
                        True)))
       \<and> MAX_CHILDREN = 9
       \<and> (getRoot env b = Inr (r, b1)
            \<and> putDescend str (length (feed (tree b1)) + length' b1) key
                 (case r of None \<Rightarrow> create None | Some n \<Rightarrow> n) [] = Inr (AtLeaf leaf stack)
            \<and> insertKey str leaf (Key (length (feed (tree b1)) + length' b1) (Some key)) None =
                 Inr (ok, leaf') \<longrightarrow>
            put str env b key val =
              (case (if ok then Inr (zipUp leaf' stack) else putSplit str leaf' stack) of
                 Inl err \<Rightarrow> Inl err
               | Inr rt \<Rightarrow> append b1 rt (length (feed (tree b1)) + length' b1) key val))
       \<and> (split nd = Inr (left, median, right)
            \<and> insertKey str (plug parent j left) median (Some right) = Inr (ok', parent') \<longrightarrow>
            putSplit str nd ((parent, j) # rest) =
              (if ok' then Inr (zipUp parent' rest) else putSplit str parent' rest))
       \<and> (split nd = Inr (left, median, right) \<longrightarrow>
            putSplit str nd [] =
              Inr (TreeNode (block left) [median]
                     [Child 0 0 (Some left), Child 0 0 (Some right)] True))"
proof -
  have a: "\<exists>i\<le>length (keys node). search str kv node = Inr (Missed i) \<and>
      insertKey str node (Key seq (Some kv)) child =
        Inr (length (keys node) + 1 < MAX_CHILDREN,
             TreeNode (block node) (splice_in i (Key seq (Some kv)) (keys node))
               (case child of
                  None \<Rightarrow> children node
                | Some n \<Rightarrow> splice_in (i + 1) (Child 0 0 (Some n)) (children node))
               True)"
    if "keys_loaded node" "str kv \<notin> set (vals str node)"
  proof -
    from search_missed [OF that] obtain i where
      i: "i \<le> length (keys node)" "search str kv node = Inr (Missed i)" by blast
    from insertKey_at [OF i(2), of seq child] i show ?thesis by blast
  qed
  have b: "MAX_CHILDREN = 9" by (simp add: MAX_CHILDREN_def MIN_KEYS_def T_def)
  have c: "put str env b key val =
      (case (if ok then Inr (zipUp leaf' stack) else putSplit str leaf' stack) of
         Inl err \<Rightarrow> Inl err
       | Inr rt \<Rightarrow> append b1 rt (length (feed (tree b1)) + length' b1) key val)"
    if "getRoot env b = Inr (r, b1)"
      "putDescend str (length (feed (tree b1)) + length' b1) key
         (case r of None \<Rightarrow> create None | Some n \<Rightarrow> n) [] = Inr (AtLeaf leaf stack)"
      "insertKey str leaf (Key (length (feed (tree b1)) + length' b1) (Some key)) None =
         Inr (ok, leaf')"
    using that by (simp add: put_def Let_def)
  have d: "putSplit str nd ((parent, j) # rest) =
      (if ok' then Inr (zipUp parent' rest) else putSplit str parent' rest)"
    if "split nd = Inr (left, median, right)"
      "insertKey str (plug parent j left) median (Some right) = Inr (ok', parent')"
    using that by simp
  have e: "putSplit str nd [] =
      Inr (TreeNode (block left) [median] [Child 0 0 (Some left), Child 0 0 (Some right)] True)"
    if "split nd = Inr (left, median, right)"
    using that by simp
  from a b c d e show ?thesis by blast
qed

theorem insertKey_bound_witness:
  "keys_loaded (TreeNode None [Key 1 (Some 1), Key 2 (Some (3::nat))] [] False)
   \<and> (2::nat) \<notin> set (vals (\<lambda>k. k) (TreeNode None [Key 1 (Some 1), Key 2 (Some (3::nat))] [] False))
   \<and> insertKey (\<lambda>k. k) (TreeNode None [Key 1 (Some 1), Key 2 (Some 3)] [] False) (Key 7 (Some (2::nat))) None
       = Inr (True, TreeNode None [Key 1 (Some 1), Key 7 (Some 2), Key 2 (Some 3)] [] True)
   \<and> getRoot \<lparr>writable = True, optUpdate = True, arrived = []\<rparr>
        (Batch \<lparr>feed = [Header :: (nat, nat) block], checkout' = 0\<rparr> False)
       = Inr (None, Batch \<lparr>feed = [Header], checkout' = 0\<rparr> False)
   \<and> putDescend (\<lambda>k. k) 1 (5::nat) (create None) [] = Inr (AtLeaf (create None) [])
   \<and> insertKey (\<lambda>k. k) (create None) (Key 1 (Some (5::nat))) None
       = Inr (True, TreeNode None [Key 1 (Some 5)] [] True)
   \<and> put (\<lambda>k. k) \<lparr>writable = True, optUpdate = True, arrived = []\<rparr>
        (Batch \<lparr>feed = [Header :: (nat, nat) block], checkout' = 0\<rparr> False) 5 (Some 50)
       = append (Batch \<lparr>feed = [Header], checkout' = 0\<rparr> False)
           (TreeNode None [Key 1 (Some 5)] [] True) 1 5 (Some 50)
   \<and> split (TreeNode None
         [Key 1 (Some 1), Key 2 (Some 2), Key 3 (Some 3), Key 4 (Some 4), Key 5 (Some 5),
          Key 6 (Some 6), Key 7 (Some 7), Key 8 (Some 8), Key 9 (Some (9::nat))] [] True)
       = Inr (TreeNode None [Key 1 (Some 1), Key 2 (Some 2), Key 3 (Some 3), Key 4 (Some 4)] [] True,
              Key 5 (Some 5),
              TreeNode None [Key 6 (Some 6), Key 7 (Some 7), Key 8 (Some 8), Key 9 (Some 9)] [] True)
   \<and> insertKey (\<lambda>k. k)
         (plug (TreeNode None [Key 20 (Some 50)] [Child 0 0 None, Child 0 0 None] False) 0
            (TreeNode None [Key 1 (Some 1), Key 2 (Some 2), Key 3 (Some 3), Key 4 (Some 4)] [] True))
         (Key 5 (Some (5::nat)))
         (Some (TreeNode None [Key 6 (Some 6), Key 7 (Some 7), Key 8 (Some 8), Key 9 (Some 9)] [] True))
       = Inr (True, TreeNode None [Key 5 (Some 5), Key 20 (Some 50)]
           [Child 0 0 (Some (TreeNode None [Key 1 (Some 1), Key 2 (Some 2), Key 3 (Some 3), Key 4 (Some 4)] [] True)),
            Child 0 0 (Some (TreeNode None [Key 6 (Some 6), Key 7 (Some 7), Key 8 (Some 8), Key 9 (Some 9)] [] True)),
            Child 0 0 None] True)
   \<and> putSplit (\<lambda>k. k) (TreeNode None
         [Key 1 (Some 1), Key 2 (Some 2), Key 3 (Some 3), Key 4 (Some 4), Key 5 (Some 5),
          Key 6 (Some 6), Key 7 (Some 7), Key 8 (Some 8), Key 9 (Some (9::nat))] [] True)
         [(TreeNode None [Key 20 (Some 50)] [Child 0 0 None, Child 0 0 None] False, 0)]
       = Inr (TreeNode None [Key 5 (Some 5), Key 20 (Some 50)]
           [Child 0 0 (Some (TreeNode None [Key 1 (Some 1), Key 2 (Some 2), Key 3 (Some 3), Key 4 (Some 4)] [] True)),
            Child 0 0 (Some (TreeNode None [Key 6 (Some 6), Key 7 (Some 7), Key 8 (Some 8), Key 9 (Some 9)] [] True)),
            Child 0 0 None] True)
   \<and> putSplit (\<lambda>k. k) (TreeNode None
         [Key 1 (Some 1), Key 2 (Some 2), Key 3 (Some 3), Key 4 (Some 4), Key 5 (Some 5),
          Key 6 (Some 6), Key 7 (Some 7), Key 8 (Some 8), Key 9 (Some (9::nat))] [] True) []
       = Inr (TreeNode None [Key 5 (Some 5)]
           [Child 0 0 (Some (TreeNode None [Key 1 (Some 1), Key 2 (Some 2), Key 3 (Some 3), Key 4 (Some 4)] [] True)),
            Child 0 0 (Some (TreeNode None [Key 6 (Some 6), Key 7 (Some 7), Key 8 (Some 8), Key 9 (Some 9)] [] True))]
           True)"
proof -
  let ?id = "\<lambda>k::nat. k"
  let ?n = "TreeNode None [Key 1 (Some 1), Key 2 (Some (3::nat))] [] False"
  let ?E = "\<lparr>writable = True, optUpdate = True, arrived = [] :: (nat, nat) block list\<rparr>"
  let ?B = "Batch \<lparr>feed = [Header :: (nat, nat) block], checkout' = 0\<rparr> False"
  let ?l1 = "TreeNode None [Key 1 (Some (5::nat))] [] True"
  let ?n9 = "TreeNode None
         [Key 1 (Some 1), Key 2 (Some 2), Key 3 (Some 3), Key 4 (Some 4), Key 5 (Some 5),
          Key 6 (Some 6), Key 7 (Some 7), Key 8 (Some 8), Key 9 (Some (9::nat))] [] True"
  let ?l = "TreeNode None [Key 1 (Some 1), Key 2 (Some 2), Key 3 (Some 3), Key 4 (Some (4::nat))] [] True"
  let ?r = "TreeNode None [Key 6 (Some 6), Key 7 (Some 7), Key 8 (Some 8), Key 9 (Some (9::nat))] [] True"
  let ?p = "TreeNode None [Key 20 (Some (50::nat))] [Child 0 0 None, Child 0 0 None] False"
  let ?p' = "TreeNode None [Key 5 (Some 5), Key 20 (Some (50::nat))]
           [Child 0 0 (Some ?l), Child 0 0 (Some ?r), Child 0 0 None] True"
  have a: "keys_loaded ?n \<and> ?id 2 \<notin> set (vals ?id ?n)"
    by (simp add: keys_loaded_def vals_def kstr_def)
  have s: "search ?id 2 ?n = Inr (Missed 1)" by code_simp
  have g: "getRoot ?E ?B = Inr (None, ?B)"
    by (simp add: getRoot_def treeRoot_def ready_def Batch_def js_or_def)
  have fl: "length (feed (tree ?B)) + length' ?B = 1" by (simp add: Batch_def)
  have d: "putDescend ?id 1 5 (create None) [] = Inr (AtLeaf (create None) [])"
    by (subst putDescend.simps) (simp add: create_def)
  have i: "insertKey ?id (create None) (Key 1 (Some 5)) None = Inr (True, ?l1)" by code_simp
  have sp: "split ?n9 = Inr (?l, Key 5 (Some 5), ?r)"
    using split_eq [of ?n9] by simp
  have ip: "insertKey ?id (plug ?p 0 ?l) (Key 5 (Some 5)) (Some ?r) = Inr (True, ?p')"
    by code_simp
  note th = insertKey_bound [of ?n ?id 2 7 None ?E ?B None ?B 5 "create None" "[]" True ?l1
      "Some 50" ?n9 ?l "Key 5 (Some 5)" ?r ?p 0 True ?p' "[]"]
  from th a s have 1: "insertKey ?id ?n (Key 7 (Some 2)) None =
      Inr (True, TreeNode None [Key 1 (Some 1), Key 7 (Some 2), Key 2 (Some 3)] [] True)"
    by (auto simp: splice_in_def MAX_CHILDREN_def MIN_KEYS_def T_def)
  from th g d i fl have 2: "put ?id ?E ?B 5 (Some 50) = append ?B ?l1 1 5 (Some 50)"
    by simp
  from th sp ip have 3: "putSplit ?id ?n9 [(?p, 0)] = Inr ?p'" by simp
  from th sp have 4: "putSplit ?id ?n9 [] =
      Inr (TreeNode None [Key 5 (Some 5)] [Child 0 0 (Some ?l), Child 0 0 (Some ?r)] True)"
    by simp
  from a 1 g d i 2 sp ip 3 4 show ?thesis by simp
qed

text \<open>
  C3: \<open>split\<close> of a node with \<open>n\<close> keys (at least one: with none the source fails on the
  median; the bytes of the median are loaded, or \<open>split\<close> first reads them from the log)
  and \<open>len = n >> 1\<close>: the right half gets the last \<open>len\<close> keys in their order,
  the median is the key before them, the left half keeps the keys before the median; a
  node with children gives its last \<open>len + 1\<close> children to the right half; and from
  \<open>n = 2T = 10\<close> both halves have at least \<open>T - 1 = 4\<close> keys.
\<close>

theorem split_halves:
  fixes node :: "'k node"
  defines "n \<equiv> length (keys node)"
  defines "len \<equiv> length (keys node) div 2"
  defines "m \<equiv> length (children node)"
  assumes "keys node \<noteq> []"
    and "children node = [] \<or> len + 1 \<le> m"
    and "kvalue (keys node ! (n - len - 1)) \<noteq> None"
  shows "split node =
           Inr (TreeNode (block node) (take (n - len - 1) (keys node))
                  (take (m - (len + 1)) (children node)) True,
                keys node ! (n - len - 1),
                TreeNode (block node) (drop (n - len) (keys node))
                  (drop (m - (len + 1)) (children node)) True)
         \<and> (n = 2 * T \<longrightarrow> MIN_KEYS \<le> n - len - 1 \<and> MIN_KEYS \<le> length (drop (n - len) (keys node)))"
proof -
  have "split node =
           Inr (TreeNode (block node) (take (n - len - 1) (keys node))
                  (take (m - (len + 1)) (children node)) True,
                keys node ! (n - len - 1),
                TreeNode (block node) (drop (n - len) (keys node))
                  (drop (m - (len + 1)) (children node)) True)"
    unfolding n_def len_def m_def
    using assms(4-6) unfolding n_def len_def m_def by (rule split_eq)
  moreover
  have "n = 2 * T \<longrightarrow> MIN_KEYS \<le> n - len - 1 \<and> MIN_KEYS \<le> length (drop (n - len) (keys node))"
    by (auto simp: T_def MIN_KEYS_def len_def n_def)
  ultimately show ?thesis by simp
qed

theorem split_halves_witness:
  "split (TreeNode None
       [Key 1 (Some 1), Key 2 (Some 2), Key 3 (Some 3), Key 4 (Some 4), Key 5 (Some 5),
        Key 6 (Some 6), Key 7 (Some 7), Key 8 (Some 8), Key 9 (Some 9), Key 10 (Some (10::nat))]
       [Child 1 0 None, Child 1 1 None, Child 1 2 None, Child 1 3 None, Child 1 4 None, Child 1 5 None,
        Child 1 6 None, Child 1 7 None, Child 1 8 None, Child 1 9 None, Child 1 10 None] False) =
   Inr (TreeNode None [Key 1 (Some 1), Key 2 (Some 2), Key 3 (Some 3), Key 4 (Some 4)]
          [Child 1 0 None, Child 1 1 None, Child 1 2 None, Child 1 3 None, Child 1 4 None] True,
        Key 5 (Some 5),
        TreeNode None [Key 6 (Some 6), Key 7 (Some 7), Key 8 (Some 8), Key 9 (Some 9), Key 10 (Some 10)]
          [Child 1 5 None, Child 1 6 None, Child 1 7 None, Child 1 8 None, Child 1 9 None, Child 1 10 None] True)"
proof -
  let ?n = "TreeNode None
       [Key 1 (Some 1), Key 2 (Some 2), Key 3 (Some 3), Key 4 (Some 4), Key 5 (Some 5),
        Key 6 (Some 6), Key 7 (Some 7), Key 8 (Some 8), Key 9 (Some 9), Key 10 (Some (10::nat))]
       [Child 1 0 None, Child 1 1 None, Child 1 2 None, Child 1 3 None, Child 1 4 None, Child 1 5 None,
        Child 1 6 None, Child 1 7 None, Child 1 8 None, Child 1 9 None, Child 1 10 None] False"
  have a: "keys ?n \<noteq> []" by simp
  have b: "children ?n = [] \<or> length (keys ?n) div 2 + 1 \<le> length (children ?n)" by simp
  have c: "kvalue (keys ?n ! (length (keys ?n) - length (keys ?n) div 2 - 1)) \<noteq> None" by simp
  show ?thesis
    using split_halves [OF a b c] by (simp add: T_def MIN_KEYS_def)
qed

subsection \<open>The leaf that replaces a deleted separator\<close>

lemma childValue_getChildNode:
  "childValue node i = Inr n \<Longrightarrow> getChildNode node i = Inr n"
  by (auto simp: childValue_def getChildNode_def split: if_splits option.splits)

lemma pushPath_leaf:
  "pushPath goLeft node stack = Inr (leaf, stack') \<Longrightarrow>
     leafSize node goLeft = Inr (length (keys leaf)) \<and> children leaf = []"
proof (induction goLeft node stack rule: pushPath.induct)
  case (1 goLeft node stack)
  show ?case
  proof (cases "children node = []")
    case True
    then have "leafSize node goLeft = Inr (length (keys node))"
      by (subst leafSize.simps) simp
    moreover have "leaf = node"
      using "1.prems" True by (simp add: pushPath.simps [of goLeft node stack])
    ultimately show ?thesis using True by simp
  next
    case False
    let ?i = "if goLeft then 0 else length (children node) - 1"
    from "1.prems" False obtain n where cv: "childValue node ?i = Inr n"
      and pp: "pushPath goLeft n ((node, ?i) # stack) = Inr (leaf, stack')"
      by (auto simp: pushPath.simps [of goLeft node stack] Let_def split: sum.splits)
    have "leafSize n goLeft = Inr (length (keys leaf)) \<and> children leaf = []"
      using "1.IH" [OF False refl cv pp] .
    then show ?thesis
      using False childValue_getChildNode [OF cv]
      by (simp add: leafSize.simps [of node goLeft])
  qed
qed

text \<open>
  C4, as the spec has it: the sizes of the rightmost leaf of the left subtree and of the
  leftmost leaf of the right subtree are compared, the key comes from the larger side,
  and from the right side when the sizes are equal. The source takes the right side
  only when \<^verbatim>\<open>ls < rs\<close>: here both leaves have one key, and the key that replaces the
  separator is the one of the left leaf.
\<close>

theorem nearest_leaf_tie_counterexample:
  "leafSize (TreeNode None [Key 1 (Some (10::nat))] [] False) False = Inr 1
   \<and> leafSize (TreeNode None [Key 3 (Some (30::nat))] [] False) True = Inr 1
   \<and> setKeyToNearestLeaf
       (TreeNode None [Key 2 (Some (20::nat))]
          [Child 0 0 (Some (TreeNode None [Key 1 (Some 10)] [] False)),
           Child 0 0 (Some (TreeNode None [Key 3 (Some 30)] [] False))] False) 0 [] =
     Inr (TreeNode None [] [] False,
          [(TreeNode None [Key 1 (Some 10)]
              [Child 0 0 (Some (TreeNode None [Key 1 (Some 10)] [] False)),
               Child 0 0 (Some (TreeNode None [Key 3 (Some 30)] [] False))] False, 0)])"
  by code_simp


text \<open>
  C4, amended: with \<open>lleaf\<close> the rightmost leaf of the left subtree and \<open>rleaf\<close> the
  leftmost leaf of the right subtree (the leaves that the two loops of
  \<open>setKeyToNearestLeaf\<close> reach), the sizes compared are the numbers of keys of these two
  leaves; when the left one is strictly smaller the separator becomes the first key of
  \<open>rleaf\<close>, and otherwise, also when the sizes are equal, it becomes the last key of
  \<open>lleaf\<close>. The key is taken out of its leaf, and the path to the leaf is pushed.
\<close>

theorem nearest_leaf_ties_left:
  assumes "getChildNode node index = Inr left"
    and "getChildNode node (index + 1) = Inr right"
    and "pushPath False left [] = Inr (lleaf, lpath)"
    and "pushPath True right [] = Inr (rleaf, rpath)"
    and "index < length (keys node)"
    and "keys lleaf \<noteq> [] \<or> keys rleaf \<noteq> []"
  shows "leafSize left False = Inr (length (keys lleaf))
       \<and> leafSize right True = Inr (length (keys rleaf))
       \<and> setKeyToNearestLeaf node index stack =
           Inr (if length (keys lleaf) < length (keys rleaf)
                then (TreeNode (block rleaf) (tl (keys rleaf)) (children rleaf) (changed rleaf),
                      rpath @ (TreeNode (block node) ((keys node)[index := hd (keys rleaf)])
                                 (children node) (changed node), index + 1) # stack)
                else (TreeNode (block lleaf) (butlast (keys lleaf)) (children lleaf) (changed lleaf),
                      lpath @ (TreeNode (block node) ((keys node)[index := last (keys lleaf)])
                                 (children node) (changed node), index) # stack))"
proof -
  have l: "leafSize left False = Inr (length (keys lleaf))"
    using pushPath_leaf [OF assms(3)] by simp
  have r: "leafSize right True = Inr (length (keys rleaf))"
    using pushPath_leaf [OF assms(4)] by simp
  show ?thesis
  proof (cases "length (keys lleaf) < length (keys rleaf)")
    case True
    then have "keys rleaf \<noteq> []" by auto
    with True l r assms show ?thesis by (simp add: setKeyToNearestLeaf_def)
  next
    case False
    with assms(6) have "keys lleaf \<noteq> []" by auto
    with False l r assms show ?thesis by (simp add: setKeyToNearestLeaf_def)
  qed
qed

theorem nearest_leaf_ties_left_witness:
  "getChildNode (TreeNode None [Key 2 (Some (20::nat))]
          [Child 0 0 (Some (TreeNode None [Key 1 (Some 10)] [] False)),
           Child 0 0 (Some (TreeNode None [Key 3 (Some 30)] [] False))] False) 0
     = Inr (TreeNode None [Key 1 (Some 10)] [] False)
   \<and> pushPath False (TreeNode None [Key 1 (Some (10::nat))] [] False) []
     = Inr (TreeNode None [Key 1 (Some 10)] [] False, [])
   \<and> pushPath True (TreeNode None [Key 3 (Some (30::nat))] [] False) []
     = Inr (TreeNode None [Key 3 (Some 30)] [] False, [])
   \<and> setKeyToNearestLeaf
       (TreeNode None [Key 2 (Some (20::nat))]
          [Child 0 0 (Some (TreeNode None [Key 1 (Some 10)] [] False)),
           Child 0 0 (Some (TreeNode None [Key 3 (Some 30)] [] False))] False) 0 [] =
     Inr (TreeNode None [] [] False,
          [(TreeNode None [Key 1 (Some 10)]
              [Child 0 0 (Some (TreeNode None [Key 1 (Some 10)] [] False)),
               Child 0 0 (Some (TreeNode None [Key 3 (Some 30)] [] False))] False, 0)])"
proof -
  let ?l = "TreeNode None [Key 1 (Some (10::nat))] [] False"
  let ?r = "TreeNode None [Key 3 (Some (30::nat))] [] False"
  let ?n = "TreeNode None [Key 2 (Some (20::nat))] [Child 0 0 (Some ?l), Child 0 0 (Some ?r)] False"
  have a: "getChildNode ?n 0 = Inr ?l" by (simp add: getChildNode_def)
  have b: "getChildNode ?n (0 + 1) = Inr ?r" by (simp add: getChildNode_def)
  have c: "pushPath False ?l [] = Inr (?l, [])" by (simp add: pushPath.simps)
  have d: "pushPath True ?r [] = Inr (?r, [])" by (simp add: pushPath.simps)
  have e: "0 < length (keys ?n)" by simp
  have f: "keys ?l \<noteq> [] \<or> keys ?r \<noteq> []" by simp
  show ?thesis
    using nearest_leaf_ties_left [OF a b c d e f, of "[]"] a c d by simp
qed


section \<open>Claims about the batch and the handle\<close>

subsection \<open>Deleting a key that is not there\<close>

lemma interleave_keys [simp]: "interleave ks [] = ks"
  by (induction ks) auto

lemma interleave_children [simp]: "interleave [] cs = concat (map sub cs)"
  by (induction cs) auto







subsection \<open>What getting the root changes\<close>











subsection \<open>Versions\<close>

text \<open>
  C6: the version of a handle is the larger of \<open>1\<close> and its checkout version when it has
  one (\<^verbatim>\<open>_checkout\<close> is not \<open>0\<close>) or else the length of the log; and the handle that
  \<open>checkout v\<close> returns for \<open>v \<ge> 1\<close> has version \<open>v\<close> whatever is appended to the log
  afterwards.
\<close>

theorem version_pinned:
  "version h = max 1 (if checkout' h \<noteq> 0 then checkout' h else int (length (feed h)))
   \<and> (1 \<le> v \<longrightarrow> version ((checkout h (Some v))\<lparr>feed := feed h @ later\<rparr>) = v)"
  by (simp add: version_def js_or_def checkout_def HyperBee_def)

theorem version_pinned_witness:
  "(1::int) \<le> 3
   \<and> version ((checkout \<lparr>feed = [Header, Node [] (1::nat) (Some (1::nat))], checkout' = 0\<rparr> (Some 3))
        \<lparr>feed := [Header, Node [] 1 (Some 1)] @ [Node [] 2 None, Node [] 3 None, Node [] 4 None]\<rparr>) = 3"
  using version_pinned [of "\<lparr>feed = [Header, Node [] (1::nat) (Some (1::nat))], checkout' = 0\<rparr>" 3
      "[Node [] 2 None, Node [] 3 None, Node [] 4 None]"]
  by simp


subsection \<open>flush with nothing staged\<close>

text \<open>
  C9: \<open>flush\<close> of a batch with no staged mutation returns the batch as it was: nothing is
  appended to the log, and root, cache and length are untouched.
\<close>

theorem flush_nothing_staged:
  "length' b = 0 \<Longrightarrow> flush staged b = b"
  by (simp add: flush_def)

theorem flush_nothing_staged_witness:
  "length' (Batch \<lparr>feed = [Header :: (nat, nat) block], checkout' = 0\<rparr> False) = 0
   \<and> flush (\<lambda>b. [Header]) (Batch \<lparr>feed = [Header :: (nat, nat) block], checkout' = 0\<rparr> False)
       = Batch \<lparr>feed = [Header], checkout' = 0\<rparr> False"
proof -
  have a: "length' (Batch \<lparr>feed = [Header :: (nat, nat) block], checkout' = 0\<rparr> False) = 0"
    by (simp add: Batch_def)
  show ?thesis using flush_nothing_staged [OF a] a by simp
qed


section \<open>Claims about the index of a block\<close>

subsection \<open>Encoding and decoding\<close>

lemma unvarint_varint: "unvarint (varint n @ rest) = Some (n, rest)"
proof (induction n rule: varint.induct)
  case (1 n)
  show ?case
  proof (cases "n < 128")
    case True
    then show ?thesis by (subst varint.simps) simp
  next
    case False
    have "unvarint (varint (n div 128) @ rest) = Some (n div 128, rest)"
      using "1.IH" False by simp
    moreover have "n mod 128 + 128 * (n div 128) = n" by simp
    ultimately show ?thesis using False by (subst varint.simps) simp
  qed
qed

lemma varint_nonempty: "varint n \<noteq> []"
  by (subst varint.simps) simp

lemma unpacked_varint:
  "unpacked (varint x @ bs) = map_option (Cons x) (unpacked bs)"
  by (subst unpacked.simps) (simp add: varint_nonempty unvarint_varint)

lemma unpacked_packed: "unpacked (packed xs) = Some xs"
proof (induction xs)
  case Nil
  show ?case by (subst unpacked.simps) (simp add: packed_def)
next
  case (Cons x xs)
  then show ?case using unpacked_varint [of x "packed xs"] by (simp add: packed_def)
qed

lemma unfield_field:
  "unfield (field tag payload @ rest) = Some (tag, payload, rest)"
  by (simp add: unfield_def field_def unvarint_varint)

lemma field_nonempty: "field tag payload \<noteq> []"
  by (simp add: field_def)

lemma decodeLevel_keys:
  "decodeLevel (field 10 (packed xs) @ rest) l = decodeLevel rest (fst l @ xs, snd l)"
  by (subst decodeLevel.simps) (simp add: field_nonempty unfield_field unpacked_packed)

lemma decodeLevel_children:
  "decodeLevel (field 18 (packed xs) @ rest) l = decodeLevel rest (fst l, snd l @ xs)"
  by (subst decodeLevel.simps) (simp add: field_nonempty unfield_field unpacked_packed)

lemma decodeLevel_nil: "decodeLevel [] l = Some l"
  by (subst decodeLevel.simps) simp

lemma decodeLevel_encodeLevel: "decodeLevel (encodeLevel l) ([], []) = Some l"
proof -
  obtain ks cs where l: "l = (ks, cs)" by (cases l)
  have a: "decodeLevel (field 18 (packed cs)) (ks', []) = Some (ks', cs)" for ks'
    using decodeLevel_children [of cs "[]" "(ks', [])"] by (simp add: decodeLevel_nil)
  have b: "decodeLevel (field 10 (packed ks)) ([], []) = Some (ks, [])"
    using decodeLevel_keys [of ks "[]" "([], [])"] by (simp add: decodeLevel_nil)
  have c: "decodeLevel (field 10 (packed ks) @ field 18 (packed cs)) ([], []) = Some (ks, cs)"
    using decodeLevel_keys [of ks "field 18 (packed cs)" "([], [])"] a by simp
  show ?thesis
    unfolding l encodeLevel_def using a [of "[]"] b c
    by (auto simp: decodeLevel_nil)
qed

lemma decodeYoloIndex_encodeYoloIndex: "decodeYoloIndex (encodeYoloIndex levels) = Some levels"
proof (induction levels)
  case Nil
  show ?case by (subst decodeYoloIndex.simps) (simp add: encodeYoloIndex_def)
next
  case (Cons l ls)
  have "decodeYoloIndex (field 10 (encodeLevel l) @ encodeYoloIndex ls) = Some (l # ls)"
    using Cons
    by (subst decodeYoloIndex.simps)
       (simp add: field_nonempty unfield_field decodeLevel_encodeLevel)
  then show ?case by (simp add: encodeYoloIndex_def)
qed

lemma pairUp_pairs:
  "pairUp (concat (map (\<lambda>c. [cseq c, coffset c]) cs)) =
     Some (map (\<lambda>c. Child (cseq c) (coffset c) None) cs)"
  by (induction cs) auto

lemma mapE_levelOf:
  "list_all (\<lambda>c. cvalue c \<noteq> None) cells \<Longrightarrow>
     mapE levelOf (map Some cells) =
       Inr (map (\<lambda>c. (map kseq (keys (the (cvalue c))),
                       concat (map (\<lambda>c. [cseq c, coffset c]) (children (the (cvalue c)))))) cells)"
  by (induction cells) (auto simp: levelOf_def)

lemma pointerLevels_unloaded:
  "pointerLevels (map (\<lambda>c. (map kseq (keys (the (cvalue c))),
                       concat (map (\<lambda>c. [cseq c, coffset c]) (children (the (cvalue c)))))) cells) =
     Inr (map (\<lambda>c. unloaded (the (cvalue c))) cells)"
  by (induction cells) (auto simp: pairUp_pairs unloaded_def comp_def)

text \<open>
  C7: decoding the bytes that encode a YoloIndex value gives the same levels back; and
  for an index as \<open>deflate\<close> takes it, \<open>inflate\<close> of the deflated bytes has, level by
  level, the same key sequence numbers and the same \<open>(seq, offset)\<close> child pairs in the
  same order (as keys and children that are not loaded).
\<close>

theorem inflate_deflate:
  "decodeYoloIndex (encodeYoloIndex levels) = Some levels
   \<and> (list_all (\<lambda>c. cvalue c \<noteq> None) cells \<longrightarrow>
        (case deflate (map Some cells) of
           Inl err \<Rightarrow> False
         | Inr buf \<Rightarrow> inflate buf = Inr (map (\<lambda>c. unloaded (the (cvalue c))) cells)))"
  by (simp add: decodeYoloIndex_encodeYoloIndex deflate_def mapE_levelOf inflate_def
      pointerLevels_unloaded)

theorem inflate_deflate_witness:
  "list_all (\<lambda>c. cvalue c \<noteq> None)
     [Child 7 0 (Some (TreeNode None [Key 300 (Some (1::nat))]
        [Child 5 1 None, Child 7 1 None] False)),
      Child 7 1 (Some (TreeNode None [Key 2 None, Key 7 None] [] False))]
   \<and> deflate (map Some
     [Child 7 0 (Some (TreeNode None [Key 300 (Some (1::nat))]
        [Child 5 1 None, Child 7 1 None] False)),
      Child 7 1 (Some (TreeNode None [Key 2 None, Key 7 None] [] False))])
     = Inr [10, 10, 10, 2, 172, 2, 18, 4, 5, 1, 7, 1, 10, 4, 10, 2, 2, 7]
   \<and> (inflate [10, 10, 10, 2, 172, 2, 18, 4, 5, 1, 7, 1, 10, 4, 10, 2, 2, 7]
        :: decode_error + nat pointers)
     = Inr [([Key 300 None], [Child 5 1 None, Child 7 1 None]), ([Key 2 None, Key 7 None], [])]"
proof -
  let ?cells = "[Child 7 0 (Some (TreeNode None [Key 300 (Some (1::nat))]
        [Child 5 1 None, Child 7 1 None] False)),
      Child 7 1 (Some (TreeNode None [Key 2 None, Key 7 None] [] False))]"
  have a: "list_all (\<lambda>c. cvalue c \<noteq> None) ?cells" by simp
  have b: "deflate (map Some ?cells) = Inr [10, 10, 10, 2, 172, 2, 18, 4, 5, 1, 7, 1, 10, 4, 10, 2, 2, 7]"
    by code_simp
  show ?thesis
    using inflate_deflate [of "[]" ?cells] a b by (simp add: unloaded_def)
qed

subsection \<open>The cells that indexChanges rewrites\<close>

lemma renumbered_mono:
  fixes idx idx' :: "'k child option list"
  assumes len: "length idx \<le> length idx'"
    and keep: "\<forall>i<length idx. idx ! i \<noteq> None \<longrightarrow> idx' ! i = idx ! i"
  shows "renumbered seq idx n n' \<Longrightarrow> renumbered seq idx' n n'"
    and "renumbereds seq idx cs cs' \<Longrightarrow> renumbereds seq idx' cs cs'"
  using len keep
proof (induction seq idx n n' and seq idx cs cs' rule: renumbered_renumbereds.induct)
  case (1 seq idx blk ks cs ch new)
  then show ?case by simp
next
  case (2 seq idx cs')
  then show ?case by simp
next
  case (3 seq idx s off cs cs')
  then show ?case by (cases cs') auto
next
  case (4 seq idx s off n cs cs')
  from "4.prems"(1) obtain c' rest where cs': "cs' = c' # rest" by (cases cs') auto
  have rest: "renumbereds seq idx' cs rest"
    using "4.IH"(2) [OF cs'] "4.prems" cs' by simp
  show ?case
  proof (cases "changed n")
    case False
    with "4.prems"(1) rest cs' show ?thesis by simp
  next
    case True
    with "4.prems"(1) cs' obtain n2 where c: "cseq c' = seq" "0 < coffset c'"
      "coffset c' < length idx" "idx ! coffset c' = Some c'" "cvalue c' = Some n2"
      "renumbered seq idx n n2"
      by (auto split: option.splits)
    have "renumbered seq idx' n n2"
      using "4.IH"(1) [OF cs' _ c(5)] True c(6) "4.prems"(2,3) by simp
    moreover have "idx' ! coffset c' = Some c'" using c(3,4) "4.prems"(3) by simp
    ultimately show ?thesis using True c rest cs' "4.prems"(2) by simp
  qed
qed

lemma indexChanges_spec:
  fixes index :: "'k child option list"
  shows "indexChanges index seq node = (off, node', idx) \<Longrightarrow>
           off = length index \<and> length index < length idx \<and> take (length index) idx = index
           \<and> idx ! length index = None
           \<and> (\<forall>i. length index < i \<and> i < length idx \<longrightarrow> filled (idx ! i))
           \<and> renumbered seq idx node node'"
    and "indexChildren index seq cs = (cs', idx) \<Longrightarrow> index \<noteq> [] \<Longrightarrow>
           length index \<le> length idx \<and> take (length index) idx = index
           \<and> (\<forall>i. length index \<le> i \<and> i < length idx \<longrightarrow> filled (idx ! i))
           \<and> renumbereds seq idx cs cs'"
proof (induction index seq node and index seq cs arbitrary: off node' idx and cs' idx
    rule: indexChanges_indexChildren.induct)
  case (1 index seq blk ks cs ch)
  from "1.prems" obtain cs2 where ic: "indexChildren (index @ [None]) seq cs = (cs2, idx)"
    and off: "off = length index" and node': "node' = TreeNode blk ks cs2 False"
    by (auto simp: Let_def split: prod.splits)
  have ih: "length (index @ [None]) \<le> length idx \<and> take (length (index @ [None])) idx = index @ [None]
           \<and> (\<forall>i. length (index @ [None]) \<le> i \<and> i < length idx \<longrightarrow> filled (idx ! i))
           \<and> renumbereds seq idx cs cs2"
    using "1.IH" [OF refl ic] by simp
  then have t: "take (Suc (length index)) idx = index @ [None]" by simp
  have "take (length index) (take (Suc (length index)) idx) = take (length index) (index @ [None])"
    using t by simp
  then have a: "take (length index) idx = index" by simp
  have "take (Suc (length index)) idx ! length index = (index @ [None]) ! length index"
    using t by simp
  then have b: "idx ! length index = None" by simp
  show ?case using ih a b off node' by auto
next
  case (2 index seq)
  then show ?case by auto
next
  case (3 index seq s off rest)
  from "3.prems"(1) obtain rest' where ic: "indexChildren index seq rest = (rest', idx)"
    and cs': "cs' = Child s off None # rest'"
    by (auto simp: Let_def split: prod.splits)
  show ?case using "3.IH" [OF ic "3.prems"(2)] cs' by simp
next
  case (4 index seq s off n rest)
  show ?case
  proof (cases "changed n")
    case False
    with "4.prems"(1) obtain rest' where ic: "indexChildren index seq rest = (rest', idx)"
      and cs': "cs' = Child s off (Some n) # rest'"
      by (auto simp: Let_def split: prod.splits)
    show ?thesis using "4.IH"(1) [OF False ic "4.prems"(2)] cs' False by simp
  next
    case True
    obtain off' n' index1 where i1: "indexChanges index seq n = (off', n', index1)"
      by (cases "indexChanges index seq n") auto
    let ?child = "Child seq off' (Some n')"
    let ?index2 = "index1[off' := Some ?child]"
    from "4.prems"(1) True i1 obtain rest' where
      ic: "indexChildren ?index2 seq rest = (rest', idx)" and cs': "cs' = ?child # rest'"
      by (auto simp: Let_def split: prod.splits)
    have p1: "off' = length index" "length index < length index1"
      "take (length index) index1 = index" "index1 ! length index = None"
      "\<forall>i. length index < i \<and> i < length index1 \<longrightarrow> filled (index1 ! i)"
      "renumbered seq index1 n n'"
      using "4.IH"(2) [OF _ i1] True by auto
    have ne2: "?index2 \<noteq> []" using p1(2) by auto
    have p2: "length ?index2 \<le> length idx" "take (length ?index2) idx = ?index2"
      "\<forall>i. length ?index2 \<le> i \<and> i < length idx \<longrightarrow> filled (idx ! i)"
      "renumbereds seq idx rest rest'"
      using "4.IH"(3) [OF _ refl i1 [symmetric] refl refl ic ne2] True by auto
    have nth: "i < length index1 \<Longrightarrow> idx ! i = ?index2 ! i" for i
    proof -
      assume "i < length index1"
      then have "take (length ?index2) idx ! i = idx ! i" by simp
      then show ?thesis using p2(2) by simp
    qed
    have a: "length index \<le> length idx" using p1(2) p2(1) by simp
    have "take (length index) (take (length ?index2) idx) = take (length index) ?index2"
      using p2(2) by simp
    then have b: "take (length index) idx = index"
      using p1(1,2,3) by (simp add: min_def)
    have c: "filled (idx ! i)" if lo: "length index \<le> i" and hi: "i < length idx" for i
    proof -
      consider "i = off'" | "length index < i" "i < length index1" | "length index1 \<le> i"
        using lo p1(1) by linarith
      then show ?thesis
      proof cases
        case 1
        then show ?thesis using nth [of i] p1(1,2) by (simp add: filled_def)
      next
        case 2
        then show ?thesis using nth [of i] p1(1,5) by simp
      next
        case 3
        then show ?thesis using p2(3) hi by simp
      qed
    qed
    have d: "idx ! off' = Some ?child" using nth [of off'] p1(1,2) by simp
    have keep: "\<forall>i<length index1. index1 ! i \<noteq> None \<longrightarrow> idx ! i = index1 ! i"
    proof (intro allI impI)
      fix i assume i: "i < length index1" "index1 ! i \<noteq> None"
      then have "i \<noteq> off'" using p1(1,4) by auto
      then show "idx ! i = index1 ! i" using nth [OF i(1)] by simp
    qed
    have len1: "length index1 \<le> length idx" using p2(1) by simp
    have e: "renumbered seq idx n n'"
      using renumbered_mono(1) [OF len1 keep p1(6)] .
    have f: "0 < off'" using p1(1) "4.prems"(2) by simp
    have g: "off' < length idx" using p1(1,2) len1 by simp
    show ?thesis using a b c d e f g p2(4) cs' True by simp
  qed
qed

lemma mapE_filled:
  "list_all filled idx \<Longrightarrow>
     mapE levelOf idx =
       Inr (map (\<lambda>l. (map kseq (keys (the (cvalue (the l)))),
                       concat (map (\<lambda>c. [cseq c, coffset c]) (children (the (cvalue (the l))))))) idx)"
  by (induction idx) (auto simp: levelOf_def filled_def split: option.splits)

text \<open>
  C8: in the index that \<open>_append\<close> builds for the block \<open>seq\<close> (\<open>rootIndex\<close>), the root
  is the cell at offset \<open>0\<close>, and every child cell of a serialised node, from the root
  down (\<open>renumbereds\<close>), is untouched when its node is not loaded or not marked changed,
  and otherwise has sequence number \<open>seq\<close> and as offset the position of the index that
  holds this cell and its node. \<open>deflate\<close> encodes the levels in that order: the level
  at a position is made of the keys and children of the node of the cell there.
\<close>

theorem indexChanges_keeps_unchanged:
  assumes "rootIndex af rt seq = (rt', idx)"
  shows "idx ! 0 = Some (Child seq 0 (Some rt'))
       \<and> keys rt' = keys rt \<and> \<not> changed rt'
       \<and> renumbereds seq idx (children rt) (children rt')
       \<and> mapE levelOf idx =
           Inr (map (\<lambda>l. (map kseq (keys (the (cvalue (the l)))),
                           concat (map (\<lambda>c. [cseq c, coffset c])
                                     (children (the (cvalue (the l))))))) idx)"
proof -
  obtain off rt1 index where ic: "indexChanges [] seq rt = (off, rt1, index)"
    by (cases "indexChanges [] seq rt") auto
  let ?rt2 = "if af then rt1
              else TreeNode (case block rt1 of None \<Rightarrow> Some seq | Some blk \<Rightarrow> Some blk)
                     (keys rt1) (children rt1) (changed rt1)"
  from assms ic have rt': "rt' = ?rt2" and idx: "idx = index[0 := Some (Child seq 0 (Some rt'))]"
    by (auto simp: rootIndex_def Let_def)
  from indexChanges_spec(1) [OF ic]
  have p: "0 < length index" "\<forall>i. 0 < i \<and> i < length index \<longrightarrow> filled (index ! i)"
    "renumbered seq index rt rt1"
    by auto
  have r1: "keys rt1 = keys rt" "\<not> changed rt1" "renumbereds seq index (children rt) (children rt1)"
    using p(3) by (cases rt; simp)+
  have keep: "\<forall>i<length index. index ! i \<noteq> None \<longrightarrow> idx ! i = index ! i"
    using indexChanges_spec(1) [OF ic] idx by (auto simp: nth_list_update)
  have len: "length index \<le> length idx" using idx by simp
  have a: "renumbereds seq idx (children rt) (children rt1)"
    using renumbered_mono(2) [OF len keep r1(3)] .
  have b: "idx ! 0 = Some (Child seq 0 (Some rt'))" using idx p(1) by simp
  have "filled (idx ! i)" if "i < length idx" for i
    using that p(2) idx by (cases i) (auto simp: filled_def)
  then have c: "list_all filled idx" by (simp add: list_all_length)
  have d: "keys rt' = keys rt" "\<not> changed rt'" "children rt' = children rt1"
    using rt' r1 by auto
  show ?thesis using a b d mapE_filled [OF c] by simp
qed

theorem indexChanges_keeps_unchanged_witness:
  "rootIndex True (TreeNode (Some 1) [Key 5 (Some (5::nat))]
     [Child 3 1 (Some (TreeNode (Some 1) [Key 1 (Some 1), Key 2 (Some 2)] [] False)),
      Child 4 1 None,
      Child 0 0 (Some (TreeNode (Some 1) [Key 7 (Some 7), Key 9 (Some 9)] [] True))] True) 9
   = (TreeNode (Some 1) [Key 5 (Some 5)]
       [Child 3 1 (Some (TreeNode (Some 1) [Key 1 (Some 1), Key 2 (Some 2)] [] False)),
        Child 4 1 None,
        Child 9 1 (Some (TreeNode (Some 1) [Key 7 (Some 7), Key 9 (Some 9)] [] False))] False,
      [Some (Child 9 0 (Some (TreeNode (Some 1) [Key 5 (Some 5)]
          [Child 3 1 (Some (TreeNode (Some 1) [Key 1 (Some 1), Key 2 (Some 2)] [] False)),
           Child 4 1 None,
           Child 9 1 (Some (TreeNode (Some 1) [Key 7 (Some 7), Key 9 (Some 9)] [] False))] False))),
       Some (Child 9 1 (Some (TreeNode (Some 1) [Key 7 (Some 7), Key 9 (Some 9)] [] False)))])
   \<and> mapE levelOf
      [Some (Child 9 0 (Some (TreeNode (Some 1) [Key 5 (Some (5::nat))]
          [Child 3 1 (Some (TreeNode (Some 1) [Key 1 (Some 1), Key 2 (Some 2)] [] False)),
           Child 4 1 None,
           Child 9 1 (Some (TreeNode (Some 1) [Key 7 (Some 7), Key 9 (Some 9)] [] False))] False))),
       Some (Child 9 1 (Some (TreeNode (Some 1) [Key 7 (Some 7), Key 9 (Some 9)] [] False)))]
     = Inr [([5], [3, 1, 4, 1, 9, 1]), ([7, 9], [])]"
proof -
  let ?rt = "TreeNode (Some 1) [Key 5 (Some (5::nat))]
     [Child 3 1 (Some (TreeNode (Some 1) [Key 1 (Some 1), Key 2 (Some 2)] [] False)),
      Child 4 1 None,
      Child 0 0 (Some (TreeNode (Some 1) [Key 7 (Some 7), Key 9 (Some 9)] [] True))] True"
  let ?rt' = "TreeNode (Some 1) [Key 5 (Some (5::nat))]
       [Child 3 1 (Some (TreeNode (Some 1) [Key 1 (Some 1), Key 2 (Some 2)] [] False)),
        Child 4 1 None,
        Child 9 1 (Some (TreeNode (Some 1) [Key 7 (Some 7), Key 9 (Some 9)] [] False))] False"
  let ?idx = "[Some (Child 9 0 (Some ?rt')),
       Some (Child 9 1 (Some (TreeNode (Some 1) [Key 7 (Some 7), Key 9 (Some (9::nat))] [] False)))]"
  have a: "rootIndex True ?rt 9 = (?rt', ?idx)"
    by (simp add: rootIndex_def Let_def)
  show ?thesis
    using indexChanges_keeps_unchanged [OF a] a by simp
qed

end
